theory Spec2Isabelle
  imports Complex_Main "HOL-Library.AList"
begin

section \<open>Values\<close>

text \<open>
  Configuration values are the values a JSON5 literal denotes: null, booleans, numbers,
  strings, arrays and plain objects. A plain object is the list of its own properties
  in enumeration order, with pairwise distinct keys; properties inherited from a
  prototype are outside the model. Numbers are kept as rationals: the resolver only
  copies and compares them. Strings are lists of 8-bit code units.
\<close>

datatype jsval =
    JNull
  | JBool bool
  | JNum rat
  | JStr string
  | JArr "jsval list"
  | JObj "(string \<times> jsval) list"

fun isPlainObject :: "jsval \<Rightarrow> bool" where
  "isPlainObject (JObj kvs) = True"
| "isPlainObject v = False"

fun isArray :: "jsval \<Rightarrow> bool" where
  "isArray (JArr xs) = True"
| "isArray v = False"

fun isScalar :: "jsval \<Rightarrow> bool" where
  "isScalar (JArr xs) = False"
| "isScalar (JObj kvs) = False"
| "isScalar v = True"

section \<open>Characters and strings\<close>

definition isSpace :: "char \<Rightarrow> bool" where
  "isSpace c = ((of_char c :: nat) \<in> {9, 10, 11, 12, 13, 32, 160})"

definition isUpper :: "char \<Rightarrow> bool" where
  "isUpper c = (65 \<le> (of_char c :: nat) \<and> (of_char c :: nat) \<le> 90)"

definition isDigit :: "char \<Rightarrow> bool" where
  "isDigit c = (48 \<le> (of_char c :: nat) \<and> (of_char c :: nat) \<le> 57)"

definition isIdentRest :: "char \<Rightarrow> bool" where
  "isIdentRest c = (isUpper c \<or> isDigit c \<or> c = CHR ''_'')"

text \<open>\<open>String.prototype.trim\<close>: white space and line terminators go from both ends.\<close>

definition trim :: "string \<Rightarrow> string" where
  "trim s = rev (dropWhile isSpace (rev (dropWhile isSpace s)))"

definition startsWith :: "string \<Rightarrow> string \<Rightarrow> bool" where
  "startsWith s p = (take (length p) s = p)"

text \<open>\<open>Array.prototype.join\<close>.\<close>

fun joinWith :: "string \<Rightarrow> string list \<Rightarrow> string" where
  "joinWith sep [] = []"
| "joinWith sep [x] = x"
| "joinWith sep (x # y # ys) = x @ sep @ joinWith sep (y # ys)"

section \<open>util.js\<close>

text \<open>
  An array answers the property names that are canonical indices below its length and
  \<open>length\<close>; a plain object answers its own keys.
\<close>

definition arrayIndex :: "string \<Rightarrow> nat option" where
  "arrayIndex s =
     (if s \<noteq> [] \<and> list_all isDigit s \<and> (s = ''0'' \<or> hd s \<noteq> CHR ''0'')
      then (let n = foldl (\<lambda>a c. 10 * a + ((of_char c :: nat) - 48)) 0 s
            in if n < 4294967295 then Some n else None)
      else None)"

fun getProp :: "jsval \<Rightarrow> string \<Rightarrow> jsval option" where
  "getProp (JObj kvs) k = map_of kvs k"
| "getProp (JArr xs) k =
     (if k = ''length'' then Some (JNum (of_nat (length xs)))
      else (case arrayIndex k of
              None \<Rightarrow> None
            | Some i \<Rightarrow> if i < length xs then Some (xs ! i) else None))"
| "getProp v k = None"

text \<open>\<open>getDeep(obj, pathSegs)\<close>; \<open>None\<close> is \<open>undefined\<close>.\<close>

fun getDeep :: "jsval \<Rightarrow> string list \<Rightarrow> jsval option" where
  "getDeep cur [] = Some cur"
| "getDeep cur (k # ks) =
     (if \<not> isPlainObject cur \<and> \<not> isArray cur then None
      else (case getProp cur k of
              None \<Rightarrow> None
            | Some v \<Rightarrow> getDeep v ks))"

text \<open>
  \<open>setDeep(obj, pathSegs, value)\<close> mutates the plain object \<open>obj\<close>; the model returns
  the properties of the mutated object. A missing or non-object step is replaced by a
  new empty object.
\<close>

fun setDeep :: "(string \<times> jsval) list \<Rightarrow> string list \<Rightarrow> jsval \<Rightarrow> (string \<times> jsval) list" where
  "setDeep obj [] v = obj"
| "setDeep obj [k] v = AList.update k v obj"
| "setDeep obj (k # k' # ks) v =
     (let child = (case map_of obj k of Some (JObj kvs) \<Rightarrow> kvs | _ \<Rightarrow> [])
      in AList.update k (JObj (setDeep child (k' # ks) v)) obj)"

fun deepMerge :: "jsval \<Rightarrow> jsval \<Rightarrow> jsval"
  and mergeEntries :: "(string \<times> jsval) list \<Rightarrow> (string \<times> jsval) list \<Rightarrow> (string \<times> jsval) list" where
  "deepMerge (JObj a) (JObj b) = JObj (mergeEntries a b)"
| "deepMerge a b = b"
| "mergeEntries out [] = out"
| "mergeEntries out ((k, v) # rest) =
     mergeEntries
       (AList.update k (case map_of out k of Some ov \<Rightarrow> deepMerge ov v | None \<Rightarrow> v) out)
       rest"

section \<open>strings.js: placeholder substitution\<close>

datatype warning =
    BlockedEnvVar string
  | BlockedVar string
  | UnknownVar string string
  | UnknownCtx string string
  | UnknownInterpolation string
  | BlockedSecret string string
  | UnknownProvider string string
  | SecretNotFound string string
  | SecretFetchError string string "string option"

text \<open>
  The options of \<open>interpolate\<close>. \<open>processEnv\<close> is the ambient \<open>process.env\<close>; an
  absent \<open>env\<close>, \<open>allowedEnvVars\<close> or \<open>allowedVars\<close> is \<open>null\<close>.
\<close>

record interpOpts =
  ctx :: "string \<rightharpoonup> string"
  vars :: "string \<rightharpoonup> string"
  env :: "(string \<rightharpoonup> string) option"
  allowedEnvVars :: "string list option"
  allowedVars :: "string list option"
  processEnv :: "string \<rightharpoonup> string"

definition envSource :: "interpOpts \<Rightarrow> string \<rightharpoonup> string" where
  "envSource opts = (case env opts of None \<Rightarrow> processEnv opts | Some e \<Rightarrow> processEnv opts ++ e)"

text \<open>\<open>RX_SECRET_PROVIDER = /^[A-Z][A-Z0-9_]*:/\<close>, tested on the trimmed expression.\<close>

definition rxSecretProvider :: "string \<Rightarrow> bool" where
  "rxSecretProvider expr =
     (case expr of
        [] \<Rightarrow> False
      | c # cs \<Rightarrow> isUpper c \<and> (case dropWhile isIdentRest cs of [] \<Rightarrow> False | d # ds \<Rightarrow> d = CHR '':''))"

text \<open>
  The callback of \<open>s.replace(/\$\{([^}]+)\}/g, ...)\<close>: the replacement of one span and the
  warnings it pushes.
\<close>

definition interpolateSpan :: "interpOpts \<Rightarrow> string \<Rightarrow> string \<Rightarrow> string \<times> warning list" where
  "interpolateSpan opts match exprRaw =
     (let expr = trim exprRaw in
      if startsWith expr ''ENV:'' then
        (let k = trim (drop 4 expr) in
         if allowedEnvVars opts \<noteq> None \<and> k \<notin> set (the (allowedEnvVars opts))
         then ([], [BlockedEnvVar k])
         else (case envSource opts k of None \<Rightarrow> ([], []) | Some v \<Rightarrow> (v, [])))
      else if startsWith expr ''VAR:'' then
        (let k = trim (drop 4 expr) in
         if allowedVars opts \<noteq> None \<and> k \<notin> set (the (allowedVars opts))
         then ([], [BlockedVar k])
         else (case vars opts k of None \<Rightarrow> ([], [UnknownVar k match]) | Some v \<Rightarrow> (v, [])))
      else if startsWith expr ''ctx.'' then
        (let k = trim (drop 4 expr) in
         case ctx opts k of None \<Rightarrow> ([], [UnknownCtx k match]) | Some v \<Rightarrow> (v, []))
      else if rxSecretProvider expr then (match, [])
      else ([], [UnknownInterpolation match]))"

text \<open>
  One attempt of \<open>/\$\{([^}]+)\}/\<close> at the head of a string: the captured expression and
  the text after the match.
\<close>

definition matchPlaceholder :: "string \<Rightarrow> (string \<times> string) option" where
  "matchPlaceholder s =
     (case s of
        c # d # t \<Rightarrow>
          if c = CHR ''$'' \<and> d = CHR ''{'' then
            (let inner = takeWhile (\<lambda>x. x \<noteq> CHR ''}'') t;
                 rest = dropWhile (\<lambda>x. x \<noteq> CHR ''}'') t
             in if inner \<noteq> [] \<and> rest \<noteq> [] then Some (inner, tl rest) else None)
          else None
      | _ \<Rightarrow> None)"

lemma matchPlaceholder_shorter:
  "matchPlaceholder s = Some (inner, rest) \<Longrightarrow> length rest < length s"
proof -
  assume a: "matchPlaceholder s = Some (inner, rest)"
  then obtain t where s: "s = CHR ''$'' # CHR ''{'' # t"
    and r: "dropWhile (\<lambda>x. x \<noteq> CHR ''}'') t \<noteq> []"
           "rest = tl (dropWhile (\<lambda>x. x \<noteq> CHR ''}'') t)"
    by (auto simp: matchPlaceholder_def Let_def split: list.splits if_splits)
  have "length (dropWhile (\<lambda>x. x \<noteq> CHR ''}'') t) \<le> length t"
    by (rule length_dropWhile_le)
  with r s show ?thesis by (cases "dropWhile (\<lambda>x. x \<noteq> CHR ''}'') t") auto
qed

text \<open>The global replace: matches are taken left to right and do not overlap.\<close>

function interpolate :: "interpOpts \<Rightarrow> string \<Rightarrow> string \<times> warning list" where
  "interpolate opts [] = ([], [])"
| "interpolate opts (c # cs) =
     (case matchPlaceholder (c # cs) of
        None \<Rightarrow> (let (r, w) = interpolate opts cs in (c # r, w))
      | Some (inner, rest) \<Rightarrow>
          (let (r1, w1) = interpolateSpan opts (''${'' @ inner @ ''}'') inner;
               (r2, w2) = interpolate opts rest
           in (r1 @ r2, w1 @ w2)))"
  by pat_completeness auto
termination
  by (relation "measure (\<lambda>(opts, s). length s)") (auto dest: matchPlaceholder_shorter)

fun applyInterpolationDeep :: "interpOpts \<Rightarrow> jsval \<Rightarrow> jsval \<times> warning list"
  and interpolateItems :: "interpOpts \<Rightarrow> jsval list \<Rightarrow> jsval list \<times> warning list"
  and interpolateEntries ::
    "interpOpts \<Rightarrow> (string \<times> jsval) list \<Rightarrow> (string \<times> jsval) list \<times> warning list" where
  "applyInterpolationDeep opts (JStr s) = (let (r, w) = interpolate opts s in (JStr r, w))"
| "applyInterpolationDeep opts (JArr xs) = (let (ys, w) = interpolateItems opts xs in (JArr ys, w))"
| "applyInterpolationDeep opts (JObj kvs) =
     (let (out, w) = interpolateEntries opts kvs in (JObj out, w))"
| "applyInterpolationDeep opts v = (v, [])"
| "interpolateItems opts [] = ([], [])"
| "interpolateItems opts (x # xs) =
     (let (y, w1) = applyInterpolationDeep opts x;
          (ys, w2) = interpolateItems opts xs
      in (y # ys, w1 @ w2))"
| "interpolateEntries opts [] = ([], [])"
| "interpolateEntries opts ((k, v) # kvs) =
     (let (y, w1) = applyInterpolationDeep opts v;
          (out, w2) = interpolateEntries opts kvs
      in ((k, y) # out, w1 @ w2))"

section \<open>resolver.js\<close>

text \<open>
  The operators of a rule: \<open>=\<close>, \<open>:=\<close>, \<open>|=\<close>, \<open>+=\<close> and \<open>-=\<close>.
\<close>

datatype operator = OpSet | OpSetIfMissing | OpMerge | OpAppend | OpRemove

text \<open>A parsed rule; the field \<open>rvalue\<close> is the source's \<open>value\<close>.\<close>

record rule =
  filePath :: string
  line :: nat
  col :: "nat option"
  keyRaw :: string
  keySegments :: "string list"
  op :: operator
  rvalue :: jsval

text \<open>The rule with its scope and key path, as pushed on \<open>indexed\<close>.\<close>

record irule = rule +
  scope :: "string list"
  keyPath :: "string list"
  keyPathStr :: string

text \<open>
  The errors the code throws. A parse error keeps the message and the line number given to
  \<open>formatParseError\<close>; the rendering of the surrounding lines is left out.
\<close>

datatype parseFault =
    BadEnvDefaultsEntry string
  | InvalidStatement
  | EmptyKey
  | BadJSON5Value
  | EmptyKeyInHeredoc
  | UnterminatedHeredoc string
  | UnterminatedStatement

text \<open>
  What a provider's \<open>fetch\<close> rejects with: the properties \<open>code\<close>, \<open>name\<close> and
  \<open>message\<close> of the thrown object, each of which may be missing.
\<close>

record fetchError =
  e_code :: "string option"
  e_name :: "string option"
  e_message :: "string option"

datatype error =
    BadRuleKey string nat nat string
  | ParseError parseFault nat
  | SecretNotFoundError string
  | FetchRejected fetchError
  | InvalidProvider

record traceEntry =
  t_op :: operator
  t_scope :: "string list"
  t_specificity :: nat
  t_filePath :: string
  t_line :: nat
  t_col :: nat
  t_keyRaw :: string

text \<open>
  \<open>structuredClone\<close> and \<open>clone\<close> copy a value; on values without identity a copy is
  the value again (\<open>clone_id\<close> below).
\<close>

definition structuredClone :: "jsval \<Rightarrow> jsval" where
  "structuredClone v = v"

fun clone :: "jsval \<Rightarrow> jsval" where
  "clone JNull = JNull"
| "clone (JArr xs) = JArr (map clone xs)"
| "clone (JObj kvs) = structuredClone (JObj kvs)"
| "clone v = v"

fun matches :: "string list \<Rightarrow> string list \<Rightarrow> bool" where
  "matches [] cs = True"
| "matches (r # rs) cs =
     (let c = (case cs of [] \<Rightarrow> ''undefined'' | c # cs' \<Rightarrow> c) in
      if r = ''*'' then matches rs (tl cs)
      else if r \<noteq> c then False
      else matches rs (tl cs))"

fun specificity :: "string list \<Rightarrow> nat" where
  "specificity [] = 0"
| "specificity (seg # segs) = (if seg \<noteq> ''*'' then Suc (specificity segs) else specificity segs)"

definition packTrace :: "irule \<Rightarrow> nat \<Rightarrow> traceEntry" where
  "packTrace r spec =
     \<lparr> t_op = op r, t_scope = scope r, t_specificity = spec, t_filePath = filePath r,
       t_line = line r, t_col = (case col r of None \<Rightarrow> 0 | Some c \<Rightarrow> c),
       t_keyRaw = keyRaw r \<rparr>"

text \<open>The first loop: every rule gets its scope and key path, or the resolution throws.\<close>

definition indexRule :: "nat \<Rightarrow> rule \<Rightarrow> irule" where
  "indexRule n r =
     rule.extend r
       \<lparr> scope = take n (keySegments r), keyPath = drop n (keySegments r),
         keyPathStr = joinWith ''.'' (drop n (keySegments r)) \<rparr>"

fun indexRules :: "nat \<Rightarrow> rule list \<Rightarrow> error + irule list" where
  "indexRules n [] = Inr []"
| "indexRules n (r # rs) =
     (if length (take n (keySegments r)) \<noteq> n \<or> drop n (keySegments r) = []
      then Inl (BadRuleKey (filePath r) (line r) n (keyRaw r))
      else (case indexRules n rs of
              Inl e \<Rightarrow> Inl e
            | Inr ys \<Rightarrow> Inr (indexRule n r # ys)))"

definition ctxScopeOf :: "string list \<Rightarrow> (string \<rightharpoonup> string) \<Rightarrow> string list" where
  "ctxScopeOf dims c = map (\<lambda>d. case c d of None \<Rightarrow> [] | Some v \<Rightarrow> v) dims"

text \<open>
  The second loop fills \<open>candidatesByKey\<close> (a \<open>Map\<close>, kept in insertion order) and
  \<open>postOps\<close>.
\<close>

definition isPostOp :: "irule \<Rightarrow> bool" where
  "isPostOp r = (op r = OpAppend \<or> op r = OpRemove)"

fun collectStep ::
  "string list \<Rightarrow> (string \<times> irule list) list \<times> irule list \<Rightarrow> irule
     \<Rightarrow> (string \<times> irule list) list \<times> irule list" where
  "collectStep ctxScope (cands, posts) r =
     (if \<not> matches (scope r) ctxScope then (cands, posts)
      else if isPostOp r then (cands, posts @ [r])
      else (AList.update (keyPathStr r)
              ((case map_of cands (keyPathStr r) of None \<Rightarrow> [] | Some cand \<Rightarrow> cand) @ [r])
              cands,
            posts))"

definition collectRules ::
  "string list \<Rightarrow> irule list \<Rightarrow> (string \<times> irule list) list \<times> irule list" where
  "collectRules ctxScope indexed = foldl (collectStep ctxScope) ([], []) indexed"

text \<open>The winner of one candidate list, with its specificity \<open>best\<close>.\<close>

fun pickLoop :: "irule list \<Rightarrow> irule \<Rightarrow> nat \<Rightarrow> irule \<times> nat" where
  "pickLoop [] winner best = (winner, best)"
| "pickLoop (c # cs) winner best =
     (let s = specificity (scope c) in
      if s > best then pickLoop cs c s
      else if s = best then pickLoop cs c best
      else pickLoop cs winner best)"

fun pickWinner :: "irule list \<Rightarrow> (irule \<times> nat) option" where
  "pickWinner [] = None"
| "pickWinner (c # cs) = Some (pickLoop cs c (specificity (scope c)))"

type_synonym rstate = "(string \<times> jsval) list \<times> (string \<times> traceEntry) list"

fun applyPrimary :: "rstate \<Rightarrow> string \<times> irule list \<Rightarrow> rstate" where
  "applyPrimary (out, trace) (key, cand) =
     (case pickWinner cand of
        None \<Rightarrow> (out, trace)
      | Some (winner, best) \<Rightarrow>
          (let existing = getDeep (JObj out) (keyPath winner);
               cloned = setDeep out (keyPath winner) (clone (rvalue winner));
               traced = AList.update key (packTrace winner best) trace
           in if op winner = OpSetIfMissing then
                (if existing = None then (cloned, traced) else (out, trace))
              else if op winner = OpMerge then
                (case existing of
                   None \<Rightarrow> (cloned, traced)
                 | Some e \<Rightarrow>
                     if isPlainObject e \<and> isPlainObject (rvalue winner)
                     then (setDeep out (keyPath winner) (deepMerge e (rvalue winner)), traced)
                     else (cloned, traced))
              else (cloned, traced)))"

text \<open>
  \<open>remove.has(x)\<close>: the members of \<open>remove\<close> are the items of a fresh clone, so a
  member that is an array or an object is identical to no element of the resolved tree;
  scalars are compared by value. The section on object identity derives this reading.
\<close>

definition removeHas :: "jsval list \<Rightarrow> jsval \<Rightarrow> bool" where
  "removeHas items x = (isScalar x \<and> x \<in> set items)"

definition itemsOf :: "jsval \<Rightarrow> jsval list" where
  "itemsOf val = (case val of JArr xs \<Rightarrow> xs | _ \<Rightarrow> [val])"

fun applyPostOp :: "rstate \<Rightarrow> irule \<Rightarrow> rstate" where
  "applyPostOp (out, trace) r =
     (let key = keyPathStr r;
          best = specificity (scope r);
          existing = getDeep (JObj out) (keyPath r);
          val = clone (rvalue r);
          traced = AList.update key (packTrace r best) trace
      in if op r = OpAppend then
           (let add = itemsOf val in
            case existing of
              None \<Rightarrow> (setDeep out (keyPath r) (JArr add), traced)
            | Some (JArr xs) \<Rightarrow> (setDeep out (keyPath r) (JArr (xs @ add)), traced)
            | Some e \<Rightarrow> (setDeep out (keyPath r) (JArr ([e] @ add)), traced))
         else if op r = OpRemove then
           (let remove = itemsOf val in
            case existing of
              Some (JArr xs) \<Rightarrow>
                (setDeep out (keyPath r) (JArr (filter (\<lambda>x. \<not> removeHas remove x) xs)), traced)
            | _ \<Rightarrow> (out, trace))
         else (out, trace))"

text \<open>\<open>postOps.sort\<close> by specificity; the sort is stable.\<close>

definition sortPostOps :: "irule list \<Rightarrow> irule list" where
  "sortPostOps posts = sort_key (\<lambda>r. specificity (scope r)) posts"

record resolved =
  cfg :: "(string \<times> jsval) list"
  trace :: "(string \<times> traceEntry) list"
  warnings :: "warning list"

definition resolveTree :: "string list \<Rightarrow> irule list \<Rightarrow> rstate" where
  "resolveTree ctxScope indexed =
     (case collectRules ctxScope indexed of (cands, posts) \<Rightarrow>
        foldl applyPostOp (foldl applyPrimary ([], []) cands) (sortPostOps posts))"

definition resolveRules ::
  "interpOpts \<Rightarrow> rule list \<Rightarrow> string list \<Rightarrow> warning list \<Rightarrow> error + resolved" where
  "resolveRules opts rules dims ws =
     (case indexRules (length dims) rules of
        Inl e \<Rightarrow> Inl e
      | Inr indexed \<Rightarrow>
          (case resolveTree (ctxScopeOf dims (ctx opts)) indexed of (out, tr) \<Rightarrow>
           case interpolateEntries opts out of (final, w) \<Rightarrow>
             Inr \<lparr> cfg = final, trace = tr, warnings = ws @ w \<rparr>))"


section \<open>Rules as the tests build them\<close>

text \<open>\<open>String.prototype.split\<close> with a one-character separator.\<close>

fun splitOn :: "char \<Rightarrow> string \<Rightarrow> string list" where
  "splitOn c [] = [[]]"
| "splitOn c (x # xs) =
     (if x = c then [] # splitOn c xs
      else (case splitOn c xs of [] \<Rightarrow> [[x]] | y # ys \<Rightarrow> (x # y) # ys))"

text \<open>\<open>makeRule\<close> of \<open>test/resolver.test.js\<close>, with its default file and line.\<close>

definition makeRule :: "string \<Rightarrow> operator \<Rightarrow> jsval \<Rightarrow> rule" where
  "makeRule k oper v =
     \<lparr> filePath = ''test.colony'', line = 1, col = Some 0, keyRaw = k,
       keySegments = splitOn CHR ''.'' k, op = oper, rvalue = v \<rparr>"



section \<open>parser.js\<close>

text \<open>
  Line terminators among the 8-bit code units; \<open>.\<close> in a regular expression matches
  every other character.
\<close>

definition isLineTerminator :: "char \<Rightarrow> bool" where
  "isLineTerminator c = (c = CHR 0x0A \<or> c = CHR 0x0D)"

definition endsWith :: "string \<Rightarrow> string \<Rightarrow> bool" where
  "endsWith s p = (length p \<le> length s \<and> drop (length s - length p) s = p)"

text \<open>\<open>text.split(/\r?\n/)\<close>.\<close>

fun splitLines :: "string \<Rightarrow> string list" where
  "splitLines [] = [[]]"
| "splitLines (c # cs) =
     (if c = CHR 0x0A then [] # splitLines cs
      else if c = CHR 0x0D \<and> take 1 cs = [CHR 0x0A] then [] # splitLines (tl cs)
      else (case splitLines cs of [] \<Rightarrow> [[c]] | l # ls \<Rightarrow> (c # l) # ls))"

text \<open>
  \<open>stripBlockComments\<close>: the inner loop over one line, with \<open>inComment\<close> and
  \<open>commentDepth\<close> carried from line to line.
\<close>

fun stripChars :: "bool \<Rightarrow> int \<Rightarrow> string \<Rightarrow> string \<times> bool \<times> int" where
  "stripChars inComment depth [] = ([], inComment, depth)"
| "stripChars inComment depth (c # cs) =
     (if \<not> inComment then
        (if c = CHR ''/'' \<and> take 1 cs = ''*'' then stripChars True 1 (tl cs)
         else (case stripChars False depth cs of (clean, st) \<Rightarrow> (c # clean, st)))
      else
        (if c = CHR ''/'' \<and> take 1 cs = ''*'' then stripChars True (depth + 1) (tl cs)
         else if c = CHR ''*'' \<and> take 1 cs = ''/''
           then stripChars (depth - 1 \<noteq> 0) (depth - 1) (tl cs)
         else stripChars True depth cs))"

fun stripLines :: "bool \<Rightarrow> int \<Rightarrow> string list \<Rightarrow> string list" where
  "stripLines inComment depth [] = []"
| "stripLines inComment depth (l # ls) =
     (case stripChars inComment depth l of
        (clean, inComment', depth') \<Rightarrow> clean # stripLines inComment' depth' ls)"

definition stripBlockComments :: "string \<Rightarrow> string \<times> nat list" where
  "stripBlockComments text =
     (let lines = splitLines text
      in (joinWith [CHR 0x0A] (stripLines False 0 lines), map Suc [0..<length lines]))"

text \<open>\<open>parseKeyPath\<close>: a backslash before a dot keeps the dot inside the segment.\<close>

fun parseKeyPathFrom :: "string \<Rightarrow> string \<Rightarrow> string list" where
  "parseKeyPathFrom current [] = (if trim current \<noteq> [] then [trim current] else [])"
| "parseKeyPathFrom current (c # cs) =
     (if c = CHR 0x5C \<and> take 1 cs = ''.'' then parseKeyPathFrom (current @ ''.'') (tl cs)
      else if c = CHR ''.''
        then (if trim current \<noteq> [] then [trim current] else []) @ parseKeyPathFrom [] cs
      else parseKeyPathFrom (current @ [c]) cs)"

definition parseKeyPath :: "string \<Rightarrow> string list" where
  "parseKeyPath k = parseKeyPathFrom [] k"

definition stripQuotes :: "string \<Rightarrow> string" where
  "stripQuotes s =
     (if (startsWith s [CHR 0x22] \<and> endsWith s [CHR 0x22])
         \<or> (startsWith s [CHR 0x27] \<and> endsWith s [CHR 0x27])
      then butlast (tl s) else s)"

subsection \<open>The regular expressions\<close>

text \<open>
  The operator alternation \<open>(\:=|\|\=|\+\=|\-\=|\=)\<close> at the head of a string. The
  alternatives start with different characters, so at most one applies.
\<close>

definition matchOp :: "string \<Rightarrow> (operator \<times> string) option" where
  "matchOp s =
     (if startsWith s '':='' then Some (OpSetIfMissing, drop 2 s)
      else if startsWith s ''|='' then Some (OpMerge, drop 2 s)
      else if startsWith s ''+='' then Some (OpAppend, drop 2 s)
      else if startsWith s ''-='' then Some (OpRemove, drop 2 s)
      else if startsWith s ''='' then Some (OpSet, drop 1 s)
      else None)"

text \<open>
  A leading lazy group \<open>^(.+?)\<close>: the key grows one character at a time, never over a
  line terminator, until the rest of the pattern matches what follows it.
\<close>

fun lazyKey :: "(string \<Rightarrow> 'a option) \<Rightarrow> string \<Rightarrow> string \<Rightarrow> (string \<times> 'a) option" where
  "lazyKey rest key [] = (case rest [] of None \<Rightarrow> None | Some x \<Rightarrow> Some (key, x))"
| "lazyKey rest key (c # cs) =
     (case rest (c # cs) of
        Some x \<Rightarrow> Some (key, x)
      | None \<Rightarrow> if isLineTerminator c then None else lazyKey rest (key @ [c]) cs)"

definition rxLazy :: "(string \<Rightarrow> 'a option) \<Rightarrow> string \<Rightarrow> (string \<times> 'a) option" where
  "rxLazy rest s =
     (case s of
        [] \<Rightarrow> None
      | c # cs \<Rightarrow> if isLineTerminator c then None else lazyKey rest [c] cs)"

text \<open>
  The heredoc start \<open>/^(.+?)\s*(op)\s*<<([A-Z_][A-Z0-9_]*)$/\<close>, matched on the trimmed
  line: what follows the key.
\<close>

definition isDelimiter :: "string \<Rightarrow> bool" where
  "isDelimiter d =
     (case d of [] \<Rightarrow> False | c # cs \<Rightarrow> (isUpper c \<or> c = CHR ''_'') \<and> list_all isIdentRest cs)"

definition heredocTail :: "string \<Rightarrow> (operator \<times> string) option" where
  "heredocTail s =
     (case matchOp (dropWhile isSpace s) of
        None \<Rightarrow> None
      | Some (oper, r2) \<Rightarrow>
          (let r3 = dropWhile isSpace r2
           in if startsWith r3 ''<<'' \<and> isDelimiter (drop 2 r3) then Some (oper, drop 2 r3)
              else None))"

definition rxHeredoc :: "string \<Rightarrow> (string \<times> operator \<times> string) option" where
  "rxHeredoc trimmed = rxLazy heredocTail trimmed"

text \<open>
  \<open>RX_RULE = /^(.+?)\s*(op)\s*([\s\S]+)\s*;$/\<close>: after the operator at least one
  character and the final semicolon must remain. The third group starts after the white
  space that follows the operator; when nothing but white space stands before the
  semicolon, it is the last white-space character.
\<close>

definition ruleTail :: "string \<Rightarrow> (operator \<times> string) option" where
  "ruleTail s =
     (case matchOp (dropWhile isSpace s) of
        None \<Rightarrow> None
      | Some (oper, r2) \<Rightarrow>
          if 2 \<le> length r2 \<and> last r2 = CHR '';''
          then (let g = dropWhile isSpace (butlast r2)
                in Some (oper, if g = [] then [last (butlast r2)] else g))
          else None)"

definition rxRule :: "string \<Rightarrow> (string \<times> operator \<times> string) option" where
  "rxRule raw = rxLazy ruleTail raw"

text \<open>
  \<open>RX_DIMS\<close>, \<open>RX_REQUIRE\<close> and \<open>RX_ENVDEFAULTS\<close> have the shape
  \<open>/^@name\s+([^;]+);/\<close>. When the white space is directly followed by the semicolon,
  the group is the last of at least two white-space characters.
\<close>

definition rxDirective :: "string \<Rightarrow> string \<Rightarrow> string option" where
  "rxDirective name raw =
     (if startsWith raw name then
        (let t = drop (length name) raw;
             ws = takeWhile isSpace t;
             u = dropWhile isSpace t;
             g = takeWhile (\<lambda>x. x \<noteq> CHR '';'') u;
             after = dropWhile (\<lambda>x. x \<noteq> CHR '';'') u
         in if ws = [] \<or> after = [] then None
            else if g \<noteq> [] then Some g
            else if 2 \<le> length ws then Some [last ws]
            else None)
      else None)"

text \<open>
  \<open>RX_INCLUDE = /^@include\s+(.+);/\<close>: the group runs to the last semicolon before
  the next line terminator.
\<close>

definition rxInclude :: "string \<Rightarrow> string option" where
  "rxInclude raw =
     (if startsWith raw ''@include'' then
        (let t = drop 8 raw;
             ws = takeWhile isSpace t;
             u = dropWhile isSpace t;
             run = takeWhile (\<lambda>x. \<not> isLineTerminator x) u
         in if ws = [] then None
            else if run \<noteq> [] \<and> CHR '';'' \<in> set (tl run)
              then Some (hd run # rev (tl (dropWhile (\<lambda>x. x \<noteq> CHR '';'') (rev (tl run)))))
            else if run \<noteq> [] \<and> hd run = CHR '';'' \<and> 2 \<le> length ws
                    \<and> \<not> isLineTerminator (last ws)
              then Some [last ws]
            else None)
      else None)"

subsection \<open>Values\<close>

definition digitsValue :: "string \<Rightarrow> nat" where
  "digitsValue ds = foldl (\<lambda>a c. 10 * a + ((of_char c :: nat) - 48)) 0 ds"

text \<open>\<open>/^-?\d+(\.\d+)?$/\<close> and \<open>Number(r)\<close> on such a literal, as a rational.\<close>

definition isNumberLiteral :: "string \<Rightarrow> bool" where
  "isNumberLiteral r =
     (let body = (if startsWith r ''-'' then tl r else r);
          whole = takeWhile isDigit body;
          rest = dropWhile isDigit body
      in whole \<noteq> [] \<and>
         (rest = [] \<or> (hd rest = CHR ''.'' \<and> tl rest \<noteq> [] \<and> list_all isDigit (tl rest))))"

definition numberOf :: "string \<Rightarrow> rat" where
  "numberOf r =
     (let body = (if startsWith r ''-'' then tl r else r);
          whole = takeWhile isDigit body;
          frac = drop 1 (dropWhile isDigit body);
          magnitude = of_nat (digitsValue whole) + of_nat (digitsValue frac) / 10 ^ length frac
      in if startsWith r ''-'' then - magnitude else magnitude)"

definition looksJsonish :: "string \<Rightarrow> bool" where
  "looksJsonish r =
     (r \<noteq> [] \<and>
      ((hd r = CHR ''{'' \<and> last r = CHR ''}'') \<or>
       (hd r = CHR ''['' \<and> last r = CHR '']'') \<or>
       (hd r = CHR 0x22 \<and> last r = CHR 0x22) \<or>
       (hd r = CHR 0x27 \<and> last r = CHR 0x27)))"

text \<open>
  \<open>parseValue\<close>. \<open>JSON5.parse\<close> belongs to a library and is the parameter \<open>json5\<close>,
  with \<open>None\<close> when it throws; on \<open>true\<close>, \<open>false\<close> and \<open>null\<close> it is taken to
  return the constant. \<open>None\<close> from \<open>parseValue\<close> is the thrown parse error.
\<close>

definition parseValue :: "(string \<Rightarrow> jsval option) \<Rightarrow> string \<Rightarrow> jsval option" where
  "parseValue json5 raw =
     (let r = trim raw
      in if r = ''true'' then Some (JBool True)
         else if r = ''false'' then Some (JBool False)
         else if r = ''null'' then Some JNull
         else if isNumberLiteral r then Some (JNum (numberOf r))
         else if looksJsonish r then json5 r
         else Some (JStr r))"

subsection \<open>The statement loop\<close>

text \<open>What \<open>parseColony\<close> returns.\<close>

record parsed =
  p_dims :: "string list option"
  p_includes :: "string list"
  p_requires :: "string list"
  p_envDefaults :: "(string \<times> string) list"
  p_rules :: "rule list"

text \<open>
  The local variables of \<open>parseColony\<close>. \<open>heredocOp\<close> is read only after a heredoc
  start has set it, so its initial value does not matter.
\<close>

record pstate = parsed +
  buf :: string
  bufStartLine :: nat
  bufStartOriginalLine :: nat
  inHeredoc :: bool
  heredocDelimiter :: string
  heredocContent :: string
  heredocStartLine :: nat
  heredocKey :: string
  heredocOp :: operator

text \<open>The arguments that stay fixed during one parse.\<close>

record penv =
  json5 :: "string \<Rightarrow> jsval option"
  pFilePath :: string
  parseOnlyDirectives :: bool
  lineMap :: "nat list"

definition initialState :: pstate where
  "initialState =
     \<lparr> p_dims = None, p_includes = [], p_requires = [], p_envDefaults = [], p_rules = [],
       buf = [], bufStartLine = 0, bufStartOriginalLine = 0, inHeredoc = False,
       heredocDelimiter = [], heredocContent = [], heredocStartLine = 0, heredocKey = [],
       heredocOp = OpSet \<rparr>"

text \<open>\<open>lineMap[lineNo - 1] || lineNo\<close>.\<close>

definition getOriginalLine :: "nat list \<Rightarrow> nat \<Rightarrow> nat" where
  "getOriginalLine lm lineNo =
     (if 0 < lineNo \<and> lineNo - 1 < length lm \<and> lm ! (lineNo - 1) \<noteq> 0
      then lm ! (lineNo - 1) else lineNo)"

text \<open>\<open>s.split(",").map((s) => s.trim()).filter(Boolean)\<close>.\<close>

definition commaList :: "string \<Rightarrow> string list" where
  "commaList g = filter (\<lambda>s. s \<noteq> []) (map trim (splitOn CHR '','' g))"

text \<open>The loop over the entries of an \<open>@envDefaults\<close> directive.\<close>

fun envDefaultsLoop :: "nat \<Rightarrow> pstate \<Rightarrow> string list \<Rightarrow> error + pstate" where
  "envDefaultsLoop origLine st [] = Inr st"
| "envDefaultsLoop origLine st (p # ps) =
     (if CHR ''='' \<notin> set p then Inl (ParseError (BadEnvDefaultsEntry p) origLine)
      else (let k = trim (takeWhile (\<lambda>x. x \<noteq> CHR ''='') p);
                vRaw = trim (drop 1 (dropWhile (\<lambda>x. x \<noteq> CHR ''='') p))
            in envDefaultsLoop origLine
                 (st\<lparr>p_envDefaults := AList.update k (stripQuotes vRaw) (p_envDefaults st)\<rparr>)
                 ps))"

text \<open>The last part of \<open>flush\<close>: a rule statement.\<close>

definition flushRule :: "penv \<Rightarrow> nat \<Rightarrow> string \<Rightarrow> pstate \<Rightarrow> error + pstate" where
  "flushRule pe origLine raw st =
     (case rxRule raw of
        None \<Rightarrow> Inl (ParseError InvalidStatement origLine)
      | Some (key, oper, valueGroup) \<Rightarrow>
          (let keyRaw' = trim key;
               valueRaw = trim valueGroup;
               segs = parseKeyPath keyRaw'
           in if segs = [] then Inl (ParseError EmptyKey origLine)
              else (case parseValue (json5 pe) valueRaw of
                      None \<Rightarrow> Inl (ParseError BadJSON5Value origLine)
                    | Some v \<Rightarrow>
                        Inr (st\<lparr>p_rules := p_rules st @
                               [\<lparr> filePath = pFilePath pe, line = origLine, col = Some 0,
                                  keyRaw = keyRaw', keySegments = segs, op = oper,
                                  rvalue = v \<rparr>]\<rparr>))))"

definition flush :: "penv \<Rightarrow> pstate \<Rightarrow> error + pstate" where
  "flush pe st0 =
     (let raw = trim (buf st0);
          st = st0\<lparr>buf := []\<rparr>;
          origLine = bufStartOriginalLine st0
      in if raw = [] then Inr st
         else if rxDirective ''@dims'' raw \<noteq> None
           then Inr (st\<lparr>p_dims := Some (commaList (the (rxDirective ''@dims'' raw)))\<rparr>)
         else if rxInclude raw \<noteq> None
           then Inr (st\<lparr>p_includes := p_includes st @ [stripQuotes (trim (the (rxInclude raw)))]\<rparr>)
         else if rxDirective ''@require'' raw \<noteq> None
           then Inr (st\<lparr>p_requires := p_requires st @ commaList (the (rxDirective ''@require'' raw))\<rparr>)
         else if rxDirective ''@envDefaults'' raw \<noteq> None
           then envDefaultsLoop origLine st (commaList (the (rxDirective ''@envDefaults'' raw)))
         else if parseOnlyDirectives pe then Inr st
         else flushRule pe origLine raw st)"

text \<open>One iteration of the loop over the lines.\<close>

definition heredocRule :: "penv \<Rightarrow> pstate \<Rightarrow> string list \<Rightarrow> rule" where
  "heredocRule pe st segs =
     \<lparr> filePath = pFilePath pe, line = heredocStartLine st, col = Some 0,
       keyRaw = heredocKey st, keySegments = segs, op = heredocOp st,
       rvalue = JStr (heredocContent st) \<rparr>"

definition parseLine :: "penv \<Rightarrow> pstate \<Rightarrow> nat \<Rightarrow> string \<Rightarrow> error + pstate" where
  "parseLine pe st lineNo row =
     (let originalLineNo = getOriginalLine (lineMap pe) lineNo;
          trimmed = trim row
      in if inHeredoc st then
           (if trimmed = heredocDelimiter st then
              (let segs = parseKeyPath (heredocKey st)
               in if segs = [] then Inl (ParseError EmptyKeyInHeredoc (heredocStartLine st))
                  else Inr (st\<lparr>p_rules := p_rules st @ [heredocRule pe st segs],
                              inHeredoc := False, heredocContent := []\<rparr>))
            else Inr (st\<lparr>heredocContent :=
                          heredocContent st
                            @ (if heredocContent st \<noteq> [] then [CHR 0x0A] else []) @ row\<rparr>))
         else if trimmed = [] \<or> startsWith trimmed ''#'' \<or> startsWith trimmed ''//'' then Inr st
         else if rxHeredoc trimmed \<noteq> None then
           (case the (rxHeredoc trimmed) of
              (key, oper, delim) \<Rightarrow>
                Inr (st\<lparr>inHeredoc := True, heredocKey := trim key, heredocOp := oper,
                        heredocDelimiter := delim, heredocStartLine := originalLineNo,
                        heredocContent := []\<rparr>))
         else
           (let st1 = (if buf st = []
                       then st\<lparr>bufStartLine := lineNo, bufStartOriginalLine := originalLineNo\<rparr>
                       else st);
                st2 = st1\<lparr>buf := buf st1 @ (if buf st1 \<noteq> [] then [CHR 0x0A] else []) @ row\<rparr>
            in if endsWith trimmed '';'' then flush pe st2 else Inr st2))"

fun parseLines :: "penv \<Rightarrow> pstate \<Rightarrow> nat \<Rightarrow> string list \<Rightarrow> error + pstate" where
  "parseLines pe st lineNo [] = Inr st"
| "parseLines pe st lineNo (row # rows) =
     (case parseLine pe st lineNo row of
        Inl e \<Rightarrow> Inl e
      | Inr st' \<Rightarrow> parseLines pe st' (Suc lineNo) rows)"

text \<open>
  \<open>parseColony(text, { filePath, parseOnlyDirectives })\<close>, with \<open>JSON5.parse\<close> as the
  first argument.
\<close>

definition cleanedLines :: "string \<Rightarrow> string list" where
  "cleanedLines text = splitLines (fst (stripBlockComments text))"

definition parseColony :: "(string \<Rightarrow> jsval option) \<Rightarrow> string \<Rightarrow> bool \<Rightarrow> string \<Rightarrow> error + parsed" where
  "parseColony j fp pod text =
     (let pe = \<lparr> json5 = j, pFilePath = fp, parseOnlyDirectives = pod,
                 lineMap = snd (stripBlockComments text) \<rparr>
      in case parseLines pe initialState 1 (cleanedLines text) of
           Inl e \<Rightarrow> Inl e
         | Inr st \<Rightarrow>
             if inHeredoc st
               then Inl (ParseError (UnterminatedHeredoc (heredocDelimiter st)) (heredocStartLine st))
             else if trim (buf st) \<noteq> []
               then Inl (ParseError UnterminatedStatement (bufStartOriginalLine st))
             else Inr (parsed.truncate st))"

text \<open>\<open>parsed.flatMap((p) => p.rules)\<close> of \<open>loadColony\<close>.\<close>

definition allRules :: "parsed list \<Rightarrow> rule list" where
  "allRules ps = concat (map p_rules ps)"

section \<open>Parsing and resolving one text\<close>

text \<open>
  The two steps \<open>loadColony\<close> performs on a unit, for a text held in memory: parse it,
  then resolve its rules under the given dimensions, starting without warnings.
\<close>

definition resolveText ::
  "(string \<Rightarrow> jsval option) \<Rightarrow> interpOpts \<Rightarrow> string \<Rightarrow> string list \<Rightarrow> error + resolved" where
  "resolveText j opts text dims =
     (case parseColony j ''<memory>'' False text of
        Inl e \<Rightarrow> Inl e
      | Inr p \<Rightarrow> resolveRules opts (p_rules p) dims [])"

text \<open>Options with a context and nothing else.\<close>

definition ctxOnly :: "(string \<rightharpoonup> string) \<Rightarrow> interpOpts" where
  "ctxOnly c =
     \<lparr> ctx = c, vars = Map.empty, env = None, allowedEnvVars = None, allowedVars = None,
       processEnv = Map.empty \<rparr>"

definition noJSON5 :: "string \<Rightarrow> jsval option" where
  "noJSON5 s = None"

text \<open>The example texts, one statement on each line.\<close>

definition timeoutTextSpec :: string where
  "timeoutTextSpec =
     ''*.timeout = 1000;\<newline>prod.*.timeout = 2000;\<newline>prod.us.timeout = 3000;''"

definition timeoutText :: string where
  "timeoutText =
     ''*.*.timeout = 1000;\<newline>prod.*.timeout = 2000;\<newline>prod.us.timeout = 3000;''"




definition timeoutLineSpec :: string where
  "timeoutLineSpec = ''*.timeout = 1000; prod.*.timeout = 2000; prod.us.timeout = 3000;''"


section \<open>secrets.js: the cache\<close>

text \<open>
  \<open>SecretCache\<close>. The \<open>Map\<close> is the list of its entries in iteration order; assigning
  to a key that is present keeps its place, assigning to a new key appends. \<open>Date.now()\<close>
  is the argument \<open>now\<close>, in milliseconds.
\<close>

record cacheEntry =
  ce_value :: string
  expires :: int

record secretCache =
  maxSize :: int
  cache :: "(string \<times> cacheEntry) list"

definition newCache :: "int \<Rightarrow> secretCache" where
  "newCache n = \<lparr> maxSize = n, cache = [] \<rparr>"

text \<open>\<open>get(key)\<close>: the value read, \<open>None\<close> for \<open>undefined\<close>, and the cache afterwards.\<close>

definition cacheGet :: "secretCache \<Rightarrow> string \<Rightarrow> int \<Rightarrow> string option \<times> secretCache" where
  "cacheGet c key now =
     (case map_of (cache c) key of
        None \<Rightarrow> (None, c)
      | Some entry \<Rightarrow>
          if now > expires entry then (None, c\<lparr>cache := AList.delete key (cache c)\<rparr>)
          else (Some (ce_value entry),
                c\<lparr>cache := AList.update key entry (AList.delete key (cache c))\<rparr>))"

text \<open>\<open>set(key, value, ttl)\<close>.\<close>

definition cacheSet :: "secretCache \<Rightarrow> string \<Rightarrow> string \<Rightarrow> int \<Rightarrow> int \<Rightarrow> secretCache" where
  "cacheSet c key v ttl now =
     (let kept = (if int (length (cache c)) \<ge> maxSize c then drop 1 (cache c) else cache c)
      in c\<lparr>cache := AList.update key \<lparr> ce_value = v, expires = now + ttl \<rparr> kept\<rparr>)"

text \<open>
  \<open>globToRegex\<close> escapes every special character but the star, and the pattern is
  anchored at both ends: a star stands for any run of characters without a line
  terminator, every other character for itself.
\<close>

fun globMatch :: "string \<Rightarrow> string \<Rightarrow> bool" where
  "globMatch [] s = (s = [])"
| "globMatch (p # ps) [] = (p = CHR ''*'' \<and> globMatch ps [])"
| "globMatch (p # ps) (c # cs) =
     (if p = CHR ''*''
      then globMatch ps (c # cs) \<or> (\<not> isLineTerminator c \<and> globMatch (p # ps) cs)
      else p = c \<and> globMatch ps cs)"

text \<open>\<open>invalidate(pattern)\<close>; an absent or empty pattern clears the cache.\<close>

definition cacheInvalidate :: "secretCache \<Rightarrow> string option \<Rightarrow> secretCache" where
  "cacheInvalidate c pattern =
     (case pattern of
        None \<Rightarrow> c\<lparr>cache := []\<rparr>
      | Some p \<Rightarrow>
          if p = [] then c\<lparr>cache := []\<rparr>
          else c\<lparr>cache := filter (\<lambda>kv. \<not> globMatch p (fst kv)) (cache c)\<rparr>)"

section \<open>secrets.js: providers and substitution\<close>

text \<open>
  A provider: its prefix and the outcome of \<open>fetch(key)\<close>, either the fulfilled value
  (\<open>None\<close> for \<open>null\<close> or \<open>undefined\<close>) or the rejection.
\<close>

datatype fetchOutcome = Fulfilled "string option" | Rejected fetchError

record provider =
  prefix :: string
  fetch :: "string \<Rightarrow> fetchOutcome"

text \<open>\<open>toUpperCase\<close>, on ASCII letters.\<close>

definition toUpperChar :: "char \<Rightarrow> char" where
  "toUpperChar c =
     (if 97 \<le> (of_char c :: nat) \<and> (of_char c :: nat) \<le> 122
      then char_of ((of_char c :: nat) - 32) else c)"

definition toUpperCase :: "string \<Rightarrow> string" where
  "toUpperCase s = map toUpperChar s"

text \<open>The registry is a \<open>Map\<close> from upper-cased prefix to provider.\<close>

type_synonym registry = "(string \<times> provider) list"

definition registerSecretProvider :: "registry \<Rightarrow> provider \<Rightarrow> error + registry" where
  "registerSecretProvider reg p =
     (if prefix p = [] then Inl InvalidProvider
      else Inr (AList.update (toUpperCase (prefix p)) p reg))"

definition unregisterSecretProvider :: "registry \<Rightarrow> string \<Rightarrow> bool \<times> registry" where
  "unregisterSecretProvider reg pre =
     (map_of reg (toUpperCase pre) \<noteq> None, AList.delete (toUpperCase pre) reg)"

text \<open>
  One attempt of \<open>RX_SECRET = /\$\{([A-Z][A-Z0-9_]*):([^}]+)\}/g\<close> at the head of a
  string: provider, key and the text after the match.
\<close>

definition matchSecret :: "string \<Rightarrow> ((string \<times> string) \<times> string) option" where
  "matchSecret s =
     (case s of
        c # d # u # t \<Rightarrow>
          if c = CHR ''$'' \<and> d = CHR ''{'' \<and> isUpper u then
            (case dropWhile isIdentRest t of
               [] \<Rightarrow> None
             | e # t2 \<Rightarrow>
                 if e = CHR '':'' then
                   (let key = takeWhile (\<lambda>x. x \<noteq> CHR ''}'') t2;
                        rest = dropWhile (\<lambda>x. x \<noteq> CHR ''}'') t2
                    in if key \<noteq> [] \<and> rest \<noteq> []
                       then Some ((u # takeWhile isIdentRest t, key), tl rest)
                       else None)
                 else None)
          else None
      | _ \<Rightarrow> None)"

lemma matchSecret_shorter:
  "matchSecret s = Some (pk, rest) \<Longrightarrow> length rest < length s"
proof -
  assume a: "matchSecret s = Some (pk, rest)"
  then obtain u t e t2 where s: "s = CHR ''$'' # CHR ''{'' # u # t"
    and d: "dropWhile isIdentRest t = e # t2"
    and r: "dropWhile (\<lambda>x. x \<noteq> CHR ''}'') t2 \<noteq> []"
           "rest = tl (dropWhile (\<lambda>x. x \<noteq> CHR ''}'') t2)"
    by (auto simp: matchSecret_def Let_def split: list.splits if_splits)
  have "length (dropWhile isIdentRest t) \<le> length t" by (rule length_dropWhile_le)
  with d have "length t2 < length t" by simp
  moreover have "length (dropWhile (\<lambda>x. x \<noteq> CHR ''}'') t2) \<le> length t2"
    by (rule length_dropWhile_le)
  ultimately show ?thesis using r s
    by (cases "dropWhile (\<lambda>x. x \<noteq> CHR ''}'') t2") auto
qed

definition reserved :: "string \<Rightarrow> bool" where
  "reserved p = (p = ''ENV'' \<or> p = ''VAR'')"

definition fullKeyOf :: "string \<Rightarrow> string \<Rightarrow> string" where
  "fullKeyOf p key = p @ '':'' @ trim key"

text \<open>
  \<open>collectSecretRefs\<close>: the \<open>Map\<close> \<open>refs\<close> from full key to provider and key, in
  insertion order. The loop over one string is \<open>collectString\<close>.
\<close>

type_synonym refs = "(string \<times> string \<times> string) list"

function collectString :: "string \<Rightarrow> refs \<Rightarrow> refs" where
  "collectString [] refs = refs"
| "collectString (c # cs) refs =
     (case matchSecret (c # cs) of
        None \<Rightarrow> collectString cs refs
      | Some (pk, rest) \<Rightarrow>
          if reserved (fst pk) then collectString rest refs
          else if map_of refs (fullKeyOf (fst pk) (snd pk)) = None
            then collectString rest
                   (refs @ [(fullKeyOf (fst pk) (snd pk), (fst pk, trim (snd pk)))])
          else collectString rest refs)"
  by pat_completeness auto
termination
  by (relation "measure (\<lambda>(s, refs). length s)") (auto dest: matchSecret_shorter)

fun collectSecretRefs :: "jsval \<Rightarrow> refs \<Rightarrow> refs"
  and collectItems :: "jsval list \<Rightarrow> refs \<Rightarrow> refs"
  and collectValues :: "(string \<times> jsval) list \<Rightarrow> refs \<Rightarrow> refs" where
  "collectSecretRefs (JStr s) refs = collectString s refs"
| "collectSecretRefs (JArr xs) refs = collectItems xs refs"
| "collectSecretRefs (JObj kvs) refs = collectValues kvs refs"
| "collectSecretRefs v refs = refs"
| "collectItems [] refs = refs"
| "collectItems (x # xs) refs = collectItems xs (collectSecretRefs x refs)"
| "collectValues [] refs = refs"
| "collectValues ((k, v) # kvs) refs = collectValues kvs (collectSecretRefs v refs)"

text \<open>\<open>isAllowed(fullKey, allowedSecrets)\<close>.\<close>

definition keyOnlyOf :: "string \<Rightarrow> string" where
  "keyOnlyOf fullKey =
     (case splitOn CHR '':'' fullKey of a # b # rest \<Rightarrow> b | _ \<Rightarrow> ''undefined'')"

definition patternAllows :: "string \<Rightarrow> string \<Rightarrow> bool" where
  "patternAllows fullKey pattern =
     (pattern = fullKey \<or> globMatch pattern fullKey \<or>
      (CHR '':'' \<notin> set pattern \<and> globMatch pattern (keyOnlyOf fullKey)))"

definition isAllowed :: "string \<Rightarrow> string list option \<Rightarrow> bool" where
  "isAllowed fullKey allowedSecrets =
     (case allowedSecrets of None \<Rightarrow> True | Some ps \<Rightarrow> list_ex (patternAllows fullKey) ps)"

text \<open>\<open>replaceSecrets\<close>; \<open>resolved\<close> is the \<open>Map\<close> from full key to value.\<close>

function replaceString :: "(string \<times> string) list \<Rightarrow> string \<Rightarrow> string" where
  "replaceString resolved [] = []"
| "replaceString resolved (c # cs) =
     (case matchSecret (c # cs) of
        None \<Rightarrow> c # replaceString resolved cs
      | Some (pk, rest) \<Rightarrow>
          (if reserved (fst pk) then ''${'' @ fst pk @ '':'' @ snd pk @ ''}''
           else (case map_of resolved (fullKeyOf (fst pk) (snd pk)) of
                   None \<Rightarrow> []
                 | Some v \<Rightarrow> v))
          @ replaceString resolved rest)"
  by pat_completeness auto
termination
  by (relation "measure (\<lambda>(resolved, s). length s)") (auto dest: matchSecret_shorter)

fun replaceSecrets :: "(string \<times> string) list \<Rightarrow> jsval \<Rightarrow> jsval" where
  "replaceSecrets resolved (JStr s) = JStr (replaceString resolved s)"
| "replaceSecrets resolved (JArr xs) = JArr (map (replaceSecrets resolved) xs)"
| "replaceSecrets resolved (JObj kvs) =
     JObj (map (\<lambda>kv. (fst kv, replaceSecrets resolved (snd kv))) kvs)"
| "replaceSecrets resolved v = v"

text \<open>
  \<open>applySecretsDeep\<close>. The options \<open>providers\<close>, \<open>allowedSecrets\<close>, \<open>cache\<close> (here
  \<open>optCache\<close>), \<open>cacheTtl\<close> and \<open>onNotFound\<close>; the list \<open>warnings\<close> is an argument of
  its own.
\<close>

datatype policy = OnEmpty | OnWarn | OnError

record secretOpts =
  providers :: "provider list"
  allowedSecrets :: "string list option"
  optCache :: "secretCache option"
  cacheTtl :: int
  onNotFound :: policy

text \<open>
  What the call finds around it: the global registry, the clock at the cache reads and
  writes (by full key), and the order in which the queued fetches settle.
\<close>

record ambient =
  globalRegistry :: registry
  clockGet :: "string \<Rightarrow> int"
  clockSet :: "string \<Rightarrow> int"
  settleOrder :: "string list \<Rightarrow> string list"

record pendingFetch =
  pf_fullKey :: string
  pf_provider :: string
  pf_key :: string
  pf_outcome :: fetchOutcome

record lookupState =
  l_warnings :: "warning list"
  l_resolved :: "(string \<times> string) list"
  l_cache :: "secretCache option"
  l_pending :: "pendingFetch list"

text \<open>\<open>String.prototype.includes\<close>.\<close>

fun includesStr :: "string \<Rightarrow> string \<Rightarrow> bool" where
  "includesStr [] sub = (sub = [])"
| "includesStr (c # cs) sub = (startsWith (c # cs) sub \<or> includesStr cs sub)"

definition isNotFound :: "fetchError \<Rightarrow> bool" where
  "isNotFound err =
     (e_code err = Some ''NOT_FOUND'' \<or> e_name err = Some ''ResourceNotFoundException'' \<or>
      (case e_message err of None \<Rightarrow> False | Some m \<Rightarrow> includesStr m ''not found''))"

definition mergeRegistry :: "registry \<Rightarrow> provider list \<Rightarrow> registry" where
  "mergeRegistry global ps = foldl (\<lambda>reg p. AList.update (toUpperCase (prefix p)) p reg) global ps"

text \<open>The body of the loop over \<open>refs\<close>, which runs before any fetch settles.\<close>

fun lookupRef ::
  "secretOpts \<Rightarrow> ambient \<Rightarrow> registry \<Rightarrow> lookupState \<Rightarrow> string \<times> string \<times> string \<Rightarrow> lookupState" where
  "lookupRef so am reg st (fullKey, p, key) =
     (if \<not> isAllowed fullKey (allowedSecrets so) then
        st\<lparr>l_warnings := l_warnings st @ [BlockedSecret p key],
           l_resolved := AList.update fullKey [] (l_resolved st)\<rparr>
      else
        (let got = (case l_cache st of
                      None \<Rightarrow> (None, None)
                    | Some c \<Rightarrow> (fst (cacheGet c fullKey (clockGet am fullKey)),
                                 Some (snd (cacheGet c fullKey (clockGet am fullKey)))));
             st1 = st\<lparr>l_cache := snd got\<rparr>
         in if fst got \<noteq> None
            then st1\<lparr>l_resolved := AList.update fullKey (the (fst got)) (l_resolved st1)\<rparr>
            else if map_of reg p = None
              then st1\<lparr>l_warnings := l_warnings st1 @ [UnknownProvider p key],
                      l_resolved := AList.update fullKey [] (l_resolved st1)\<rparr>
            else st1\<lparr>l_pending := l_pending st1 @
                       [\<lparr> pf_fullKey = fullKey, pf_provider = p, pf_key = key,
                          pf_outcome = fetch (the (map_of reg p)) key \<rparr>]\<rparr>))"

declare lookupRef.simps [simp del]

text \<open>The \<open>then\<close> and \<open>catch\<close> handlers of one queued fetch.\<close>

definition settle :: "secretOpts \<Rightarrow> ambient \<Rightarrow> lookupState \<Rightarrow> pendingFetch \<Rightarrow> error + lookupState" where
  "settle so am st pf =
     (case pf_outcome pf of
        Fulfilled val \<Rightarrow>
          (let strVal = (case val of None \<Rightarrow> [] | Some v \<Rightarrow> v)
           in Inr (st\<lparr>l_cache := map_option
                                    (\<lambda>c. cacheSet c (pf_fullKey pf) strVal (cacheTtl so)
                                           (clockSet am (pf_fullKey pf)))
                                    (l_cache st),
                      l_resolved := AList.update (pf_fullKey pf) strVal (l_resolved st)\<rparr>))
      | Rejected err \<Rightarrow>
          if isNotFound err then
            (if onNotFound so = OnError then Inl (SecretNotFoundError (pf_fullKey pf))
             else Inr (st\<lparr>l_warnings := l_warnings st @ [SecretNotFound (pf_provider pf) (pf_key pf)],
                         l_resolved := AList.update (pf_fullKey pf) [] (l_resolved st)\<rparr>))
          else
            (if onNotFound so = OnError then Inl (FetchRejected err)
             else Inr (st\<lparr>l_warnings := l_warnings st @
                                          [SecretFetchError (pf_provider pf) (pf_key pf) (e_message err)],
                         l_resolved := AList.update (pf_fullKey pf) [] (l_resolved st)\<rparr>)))"

text \<open>
  \<open>Promise.all\<close>: the handlers run in the order in which the fetches settle, and the
  first rejection rejects the whole call.
\<close>

fun settleAll :: "secretOpts \<Rightarrow> ambient \<Rightarrow> lookupState \<Rightarrow> pendingFetch list \<Rightarrow> error + lookupState" where
  "settleAll so am st [] = Inr st"
| "settleAll so am st (pf # pfs) =
     (case settle so am st pf of
        Inl e \<Rightarrow> Inl e
      | Inr st' \<Rightarrow> settleAll so am st' pfs)"

text \<open>
  The queued fetches in the order in which they settle: \<open>settleOrder\<close> arranges their full
  keys, and a key it does not name settles after those it names.
\<close>

definition settled :: "ambient \<Rightarrow> pendingFetch list \<Rightarrow> pendingFetch list" where
  "settled am pending =
     (let named = settleOrder am (map pf_fullKey pending)
      in concat (map (\<lambda>k. filter (\<lambda>pf. pf_fullKey pf = k) pending) (remdups named))
         @ filter (\<lambda>pf. pf_fullKey pf \<notin> set named) pending)"

record secretsResult =
  s_value :: jsval
  s_warnings :: "warning list"
  s_cache :: "secretCache option"

definition applySecretsDeep ::
  "secretOpts \<Rightarrow> ambient \<Rightarrow> warning list \<Rightarrow> jsval \<Rightarrow> error + secretsResult" where
  "applySecretsDeep so am ws v =
     (let reg = mergeRegistry (globalRegistry am) (providers so);
          refs = collectSecretRefs v []
      in if refs = [] then Inr \<lparr> s_value = v, s_warnings = ws, s_cache = optCache so \<rparr>
         else
           (let st = foldl (lookupRef so am reg)
                       \<lparr> l_warnings = ws, l_resolved = [], l_cache = optCache so, l_pending = [] \<rparr>
                       refs
            in case settleAll so am st (settled am (l_pending st)) of
                 Inl e \<Rightarrow> Inl e
               | Inr st' \<Rightarrow>
                   Inr \<lparr> s_value = replaceSecrets (l_resolved st') v,
                         s_warnings = l_warnings st', s_cache = l_cache st' \<rparr>))"

section \<open>Example inputs of the secret substitution\<close>

text \<open>No global provider, a clock that stands still, fetches settling in queue order.\<close>

definition quietAmbient :: ambient where
  "quietAmbient =
     \<lparr> globalRegistry = [], clockGet = (\<lambda>k. 0), clockSet = (\<lambda>k. 0), settleOrder = (\<lambda>ks. ks) \<rparr>"

text \<open>The provider of the test "handles not found errors".\<close>

definition notFoundProvider :: provider where
  "notFoundProvider =
     \<lparr> prefix = ''NF'',
       fetch = (\<lambda>key. Rejected \<lparr> e_code = Some ''NOT_FOUND'', e_name = Some ''Error'',
                                  e_message = Some ''Secret not found'' \<rparr>) \<rparr>"

definition notFoundOpts :: "policy \<Rightarrow> secretOpts" where
  "notFoundOpts pol =
     \<lparr> providers = [notFoundProvider], allowedSecrets = None, optCache = None,
       cacheTtl = 300000, onNotFound = pol \<rparr>"

definition missingTree :: jsval where
  "missingTree = JObj [(''val'', JStr ''${NF:missing}'')]"

text \<open>A tree that names the unregistered prefix \<open>XX\<close> in three leaves.\<close>

definition unknownTree :: jsval where
  "unknownTree =
     JObj [(''a'', JStr ''x${XX:key}y''),
           (''b'', JArr [JStr ''${XX:key}'', JStr ''${XX: key }${ENV:HOME}''])]"

definition plainOpts :: secretOpts where
  "plainOpts =
     \<lparr> providers = [], allowedSecrets = None, optCache = None, cacheTtl = 300000,
       onNotFound = OnWarn \<rparr>"

text \<open>
  The shape of the entries of \<open>refs\<close>: distinct full keys, each the provider, a colon and
  the trimmed key, and no reserved provider.
\<close>

definition wfRefs :: "refs \<Rightarrow> bool" where
  "wfRefs refs =
     (distinct (map fst refs) \<and>
      (\<forall>r\<in>set refs. fst r = fst (snd r) @ '':'' @ snd (snd r) \<and> \<not> reserved (fst (snd r))))"

text \<open>The cache, when there is one, has no entry under a full key.\<close>

definition cacheLacks :: "secretCache option \<Rightarrow> string \<Rightarrow> bool" where
  "cacheLacks co fk = (\<forall>c. co = Some c \<longrightarrow> map_of (cache c) fk = None)"

section \<open>Spans of a string\<close>

text \<open>
  A span whose trimmed expression has the secret-provider shape and does not start with
  \<open>ENV:\<close> or \<open>VAR:\<close>.
\<close>

definition secretShaped :: "string \<Rightarrow> bool" where
  "secretShaped inner =
     (rxSecretProvider (trim inner) \<and> \<not> startsWith (trim inner) ''ENV:''
        \<and> \<not> startsWith (trim inner) ''VAR:'')"

text \<open>
  \<open>allSpans P s\<close>: every span that the global replace of \<open>interpolate\<close> finds in \<open>s\<close>
  has an expression with the property \<open>P\<close>. With \<open>P\<close> false everywhere, \<open>s\<close> has no
  span.
\<close>

function allSpans :: "(string \<Rightarrow> bool) \<Rightarrow> string \<Rightarrow> bool" where
  "allSpans P [] = True"
| "allSpans P (c # cs) =
     (case matchPlaceholder (c # cs) of
        None \<Rightarrow> allSpans P cs
      | Some (inner, rest) \<Rightarrow> P inner \<and> allSpans P rest)"
  by pat_completeness auto
termination
  by (relation "measure (\<lambda>(P, s). length s)") (auto dest: matchPlaceholder_shorter)

fun treeSpans :: "(string \<Rightarrow> bool) \<Rightarrow> jsval \<Rightarrow> bool" where
  "treeSpans P (JStr s) = allSpans P s"
| "treeSpans P (JArr xs) = list_all (treeSpans P) xs"
| "treeSpans P (JObj kvs) = list_all (\<lambda>kv. treeSpans P (snd kv)) kvs"
| "treeSpans P v = True"

definition noSpans :: "jsval \<Rightarrow> bool" where
  "noSpans v = treeSpans (\<lambda>inner. False) v"

text \<open>
  \<open>secretFree s\<close>: every match of \<open>RX_SECRET\<close> that the scan of \<open>s\<close> meets has a
  reserved provider.
\<close>

function secretFree :: "string \<Rightarrow> bool" where
  "secretFree [] = True"
| "secretFree (c # cs) =
     (case matchSecret (c # cs) of
        None \<Rightarrow> secretFree cs
      | Some (pk, rest) \<Rightarrow> reserved (fst pk) \<and> secretFree rest)"
  by pat_completeness auto
termination
  by (relation "measure length") (auto dest: matchSecret_shorter)

fun treeSecretFree :: "jsval \<Rightarrow> bool" where
  "treeSecretFree (JStr s) = secretFree s"
| "treeSecretFree (JArr xs) = list_all treeSecretFree xs"
| "treeSecretFree (JObj kvs) = list_all (\<lambda>kv. treeSecretFree (snd kv)) kvs"
| "treeSecretFree v = True"

text \<open>A variable whose value is itself a placeholder, and a secret that is one.\<close>

definition nestedOpts :: interpOpts where
  "nestedOpts =
     \<lparr> ctx = [''env'' \<mapsto> ''prod''], vars = [''template'' \<mapsto> ''${ctx.env}''], env = None,
       allowedEnvVars = None, allowedVars = None, processEnv = Map.empty \<rparr>"

definition nestedResolved :: "(string \<times> string) list" where
  "nestedResolved = [(''A:k'', ''${B:k}''), (''B:k'', ''v'')]"

section \<open>Heredoc content\<close>

text \<open>
  How the loop accumulates \<open>heredocContent\<close> over the content lines: a newline is put
  before a line only when the content gathered so far is not empty.
\<close>

definition heredocAppend :: "string \<Rightarrow> string \<Rightarrow> string" where
  "heredocAppend content row = content @ (if content \<noteq> [] then [CHR 0x0A] else []) @ row"

definition heredocStarts :: "string \<Rightarrow> string \<Rightarrow> operator \<Rightarrow> string \<Rightarrow> bool" where
  "heredocStarts row key oper delim =
     (trim row \<noteq> [] \<and> \<not> startsWith (trim row) ''#'' \<and> \<not> startsWith (trim row) ''//'' \<and>
      rxHeredoc (trim row) = Some (key, oper, delim) \<and> parseKeyPath (trim key) \<noteq> [])"

text \<open>The fixed arguments of one call of \<open>parseColony\<close>, and the rule a heredoc yields.\<close>

definition penvOf :: "(string \<Rightarrow> jsval option) \<Rightarrow> string \<Rightarrow> bool \<Rightarrow> string \<Rightarrow> penv" where
  "penvOf j fp pod text =
     \<lparr> json5 = j, pFilePath = fp, parseOnlyDirectives = pod,
       lineMap = snd (stripBlockComments text) \<rparr>"

definition heredocResult :: "string \<Rightarrow> nat \<Rightarrow> string \<Rightarrow> operator \<Rightarrow> string list \<Rightarrow> rule" where
  "heredocResult fp n key oper content =
     \<lparr> filePath = fp, line = n, col = Some 0, keyRaw = trim key,
       keySegments = parseKeyPath (trim key), op = oper,
       rvalue = JStr (joinWith [CHR 0x0A] content) \<rparr>"

definition heredocText :: string where
  "heredocText = ''*.template = <<EOF\<newline>line 1\<newline>line 2\<newline>EOF''"

definition heredocOpenText :: string where
  "heredocOpenText = ''*.key = <<EOF\<newline>no end''"

definition heredocCommentText :: string where
  "heredocCommentText = ''*.k = <<EOF\<newline>a/*x*/b\<newline>EOF''"

definition heredocIndentText :: string where
  "heredocIndentText = ''*.k = <<EOF\<newline>a\<newline>  EOF  \<newline>*.n = 1;''"

definition heredocBlankText :: string where
  "heredocBlankText = ''*.k = <<EOF\<newline>\<newline>x\<newline>EOF''"

section \<open>Object identity in Remove\<close>

text \<open>
  \<open>Set.prototype.has\<close> compares by SameValueZero: scalars by value, arrays and objects
  by identity. To follow identity through \<open>clone\<close>, a value here carries, at every array
  and object, the address at which it was allocated; addresses are handed out in
  increasing order, and the counter \<open>n\<close> is the next free one.
\<close>

datatype rval =
    RNull
  | RBool bool
  | RNum rat
  | RStr string
  | RArr nat "rval list"
  | RObj nat "(string \<times> rval) list"

fun erase :: "rval \<Rightarrow> jsval" where
  "erase RNull = JNull"
| "erase (RBool b) = JBool b"
| "erase (RNum x) = JNum x"
| "erase (RStr s) = JStr s"
| "erase (RArr i xs) = JArr (map erase xs)"
| "erase (RObj i kvs) = JObj (map (\<lambda>kv. (fst kv, erase (snd kv))) kvs)"

fun address :: "rval \<Rightarrow> nat option" where
  "address (RArr i xs) = Some i"
| "address (RObj i kvs) = Some i"
| "address v = None"

definition isScalarR :: "rval \<Rightarrow> bool" where
  "isScalarR v = (address v = None)"

text \<open>\<open>structuredClone\<close>: a deep copy, every array and object of it newly allocated.\<close>

fun structuredCloneR :: "nat \<Rightarrow> rval \<Rightarrow> rval \<times> nat"
  and structuredCloneItems :: "nat \<Rightarrow> rval list \<Rightarrow> rval list \<times> nat"
  and structuredCloneEntries :: "nat \<Rightarrow> (string \<times> rval) list \<Rightarrow> (string \<times> rval) list \<times> nat" where
  "structuredCloneR n (RArr i xs) =
     (case structuredCloneItems (Suc n) xs of (ys, n') \<Rightarrow> (RArr n ys, n'))"
| "structuredCloneR n (RObj i kvs) =
     (case structuredCloneEntries (Suc n) kvs of (ws, n') \<Rightarrow> (RObj n ws, n'))"
| "structuredCloneR n v = (v, n)"
| "structuredCloneItems n [] = ([], n)"
| "structuredCloneItems n (x # xs) =
     (case structuredCloneR n x of (y, n1) \<Rightarrow>
      case structuredCloneItems n1 xs of (ys, n2) \<Rightarrow> (y # ys, n2))"
| "structuredCloneEntries n [] = ([], n)"
| "structuredCloneEntries n ((k, v) # kvs) =
     (case structuredCloneR n v of (w, n1) \<Rightarrow>
      case structuredCloneEntries n1 kvs of (ws, n2) \<Rightarrow> ((k, w) # ws, n2))"

text \<open>
  \<open>clone\<close>: \<open>v.map(clone)\<close> for an array, \<open>structuredClone(v)\<close> for an object, the value
  itself otherwise.
\<close>

fun cloneR :: "nat \<Rightarrow> rval \<Rightarrow> rval \<times> nat"
  and cloneItems :: "nat \<Rightarrow> rval list \<Rightarrow> rval list \<times> nat" where
  "cloneR n (RArr i xs) = (case cloneItems (Suc n) xs of (ys, n') \<Rightarrow> (RArr n ys, n'))"
| "cloneR n (RObj i kvs) = structuredCloneR n (RObj i kvs)"
| "cloneR n v = (v, n)"
| "cloneItems n [] = ([], n)"
| "cloneItems n (x # xs) =
     (case cloneR n x of (y, n1) \<Rightarrow>
      case cloneItems n1 xs of (ys, n2) \<Rightarrow> (y # ys, n2))"

definition sameValueZero :: "rval \<Rightarrow> rval \<Rightarrow> bool" where
  "sameValueZero a b =
     (case (address a, address b) of
        (None, None) \<Rightarrow> a = b
      | (Some i, Some j) \<Rightarrow> i = j
      | _ \<Rightarrow> False)"

text \<open>
  Lines 88 and 100 to 102 of \<open>resolveRules\<close>: the clone of the rule's value, the set of
  its items, and the elements of \<open>existing\<close> that the filter keeps.
\<close>

definition removeItemsR :: "rval \<Rightarrow> rval list" where
  "removeItemsR val = (case val of RArr i xs \<Rightarrow> xs | _ \<Rightarrow> [val])"

definition removeR :: "nat \<Rightarrow> rval \<Rightarrow> rval list \<Rightarrow> rval list" where
  "removeR n rv existing =
     (let val = fst (cloneR n rv);
          remove = removeItemsR val
      in filter (\<lambda>x. \<not> list_ex (\<lambda>y. sameValueZero y x) remove) existing)"

text \<open>Every element of a list was allocated before the counter stood at \<open>n\<close>.\<close>

definition allocatedBefore :: "nat \<Rightarrow> rval list \<Rightarrow> bool" where
  "allocatedBefore n xs = (\<forall>x\<in>set xs. \<forall>i. address x = Some i \<longrightarrow> i < n)"

text \<open>
  An example: the sequence at \<open>list\<close> holds a mapping, the string \<open>x\<close> and a sequence,
  all allocated before address 4; one Remove rule names an equal mapping and the string
  \<open>x\<close>, another names an equal mapping alone.
\<close>

definition removeExisting :: "rval list" where
  "removeExisting = [RObj 2 [(''a'', RNum 1)], RStr ''x'', RArr 3 [RStr ''y'']]"

definition removeOperand :: rval where
  "removeOperand = RArr 0 [RObj 1 [(''a'', RNum 1)], RStr ''x'']"

definition removeMapping :: rval where
  "removeMapping = RObj 0 [(''a'', RNum 1)]"

definition removeRule :: "rval \<Rightarrow> irule" where
  "removeRule rv = indexRule 1 (makeRule ''*.list'' OpRemove (erase rv))"

definition removeOut :: "(string \<times> jsval) list" where
  "removeOut = [(''list'', JArr (map erase removeExisting))]"

section \<open>Verified properties\<close>

subsection \<open>Winner selection\<close>









subsection \<open>Evaluation of the examples\<close>

lemmas parser_defs = parseColony_def cleanedLines_def stripBlockComments_def parseLine_def
  flush_def flushRule_def initialState_def getOriginalLine_def trim_def isSpace_def
  startsWith_def endsWith_def rxHeredoc_def rxLazy_def heredocTail_def matchOp_def
  isLineTerminator_def rxDirective_def rxInclude_def rxRule_def ruleTail_def
  parseKeyPath_def parseValue_def isNumberLiteral_def numberOf_def digitsValue_def
  isDigit_def looksJsonish_def parsed.defs pstate.defs Let_def

lemmas resolver_defs = resolveRules_def resolveTree_def collectRules_def indexRule_def
  ctxScopeOf_def rule.defs isPostOp_def sortPostOps_def packTrace_def itemsOf_def
  removeHas_def structuredClone_def ctxOnly_def matchPlaceholder_def Let_def

lemma parse_timeoutTextSpec:
  "parseColony j ''<memory>'' False timeoutTextSpec =
     Inr \<lparr>p_dims = None, p_includes = [], p_requires = [], p_envDefaults = [],
        p_rules =
          [\<lparr>filePath = ''<memory>'', line = 1, col = Some 0,
              keyRaw = ''*.timeout'', keySegments = [''*'', ''timeout''],
              op = OpSet, rvalue = JNum 1000\<rparr>,
           \<lparr>filePath = ''<memory>'', line = 2, col = Some 0,
              keyRaw = ''prod.*.timeout'',
              keySegments = [''prod'', ''*'', ''timeout''], op = OpSet,
              rvalue = JNum 2000\<rparr>,
           \<lparr>filePath = ''<memory>'', line = 3, col = Some 0,
              keyRaw = ''prod.us.timeout'',
              keySegments = [''prod'', ''us'', ''timeout''], op = OpSet,
              rvalue = JNum 3000\<rparr>]\<rparr>"
  by (simp add: timeoutTextSpec_def parser_defs)

lemma parse_timeoutText:
  "parseColony j ''<memory>'' False timeoutText =
     Inr \<lparr>p_dims = None, p_includes = [], p_requires = [], p_envDefaults = [],
        p_rules =
          [\<lparr>filePath = ''<memory>'', line = 1, col = Some 0,
              keyRaw = ''*.*.timeout'', keySegments = [''*'', ''*'', ''timeout''],
              op = OpSet, rvalue = JNum 1000\<rparr>,
           \<lparr>filePath = ''<memory>'', line = 2, col = Some 0,
              keyRaw = ''prod.*.timeout'',
              keySegments = [''prod'', ''*'', ''timeout''], op = OpSet,
              rvalue = JNum 2000\<rparr>,
           \<lparr>filePath = ''<memory>'', line = 3, col = Some 0,
              keyRaw = ''prod.us.timeout'',
              keySegments = [''prod'', ''us'', ''timeout''], op = OpSet,
              rvalue = JNum 3000\<rparr>]\<rparr>"
  by (simp add: timeoutText_def parser_defs)


lemma parse_timeoutLineSpec:
  "parseColony j ''<memory>'' False timeoutLineSpec =
     Inr \<lparr>p_dims = None, p_includes = [], p_requires = [], p_envDefaults = [],
        p_rules =
          [\<lparr>filePath = ''<memory>'', line = 1, col = Some 0,
              keyRaw = ''*.timeout'', keySegments = [''*'', ''timeout''],
              op = OpSet,
              rvalue = JStr ''1000; prod.*.timeout = 2000; prod.us.timeout = 3000''\<rparr>]\<rparr>"
  by (simp add: timeoutLineSpec_def parser_defs)



subsection \<open>The timeout example\<close>

text \<open>
  C2, as the specification states it, fails: the first statement \<open>*.timeout = 1000;\<close> has
  one scope segment where the two dimensions \<open>env\<close> and \<open>region\<close> need two, so the
  resolution throws the key error of its first loop, whether the three statements stand on
  three lines or on one.
\<close>

theorem timeout_example_spec_text_rejected:
  "resolveText noJSON5 (ctxOnly [''env'' \<mapsto> ''prod'', ''region'' \<mapsto> ''eu''])
     timeoutTextSpec [''env'', ''region'']
     = Inl (BadRuleKey ''<memory>'' 1 2 ''*.timeout'') \<and>
   resolveText noJSON5 (ctxOnly [''env'' \<mapsto> ''prod'', ''region'' \<mapsto> ''eu''])
     timeoutLineSpec [''env'', ''region'']
     = Inl (BadRuleKey ''<memory>'' 1 2 ''*.timeout'')"
  by (simp add: resolveText_def parse_timeoutTextSpec parse_timeoutLineSpec resolver_defs)

text \<open>
  C2, amended: with the first statement scoped by both dimensions,
  \<open>*.*.timeout = 1000; prod.*.timeout = 2000; prod.us.timeout = 3000;\<close> (one statement
  on each line) and the dimensions \<open>env\<close>, \<open>region\<close>, the resolution succeeds and yields
  \<open>timeout = 2000\<close> under the context \<open>env = prod, region = eu\<close> and \<open>timeout = 3000\<close>
  under \<open>env = prod, region = us\<close>.
\<close>

theorem timeout_example_resolves:
  "resolveText j (ctxOnly [''env'' \<mapsto> ''prod'', ''region'' \<mapsto> ''eu''])
     timeoutText [''env'', ''region'']
     = Inr \<lparr>cfg = [(''timeout'', JNum 2000)],
            trace = [(''timeout'',
              \<lparr>t_op = OpSet, t_scope = [''prod'', ''*''], t_specificity = 1,
                 t_filePath = ''<memory>'', t_line = 2, t_col = 0,
                 t_keyRaw = ''prod.*.timeout''\<rparr>)],
            warnings = []\<rparr> \<and>
   resolveText j (ctxOnly [''env'' \<mapsto> ''prod'', ''region'' \<mapsto> ''us''])
     timeoutText [''env'', ''region'']
     = Inr \<lparr>cfg = [(''timeout'', JNum 3000)],
            trace = [(''timeout'',
              \<lparr>t_op = OpSet, t_scope = [''prod'', ''us''], t_specificity = 2,
                 t_filePath = ''<memory>'', t_line = 3, t_col = 0,
                 t_keyRaw = ''prod.us.timeout''\<rparr>)],
            warnings = []\<rparr>"
  by (simp add: resolveText_def parse_timeoutText resolver_defs)

subsection \<open>Deferred operators\<close>

lemma getDeep_setDeep:
  "p \<noteq> [] \<Longrightarrow> getDeep (JObj (setDeep out p v)) p = Some v"
proof (induction out p v rule: setDeep.induct)
  case (1 obj v)
  then show ?case by simp
next
  case (2 obj k v)
  then show ?case by (simp add: update_conv')
next
  case (3 obj k k' ks v)
  then show ?case by (simp add: update_conv' Let_def)
qed

lemma clone_id: "clone v = v"
proof (induction v)
  case (JArr xs)
  then show ?case by (simp add: map_idI)
qed (simp_all add: structuredClone_def)


lemma applyPostOp_remove:
  assumes "op r = OpRemove" and "keyPath r \<noteq> []"
  shows "case getDeep (JObj out) (keyPath r) of
           Some (JArr xs) \<Rightarrow>
             getDeep (JObj (fst (applyPostOp (out, tr) r))) (keyPath r) =
               Some (JArr (filter (\<lambda>x. \<not> removeHas (itemsOf (rvalue r)) x) xs))
         | _ \<Rightarrow> applyPostOp (out, tr) r = (out, tr)"
  using assms
  by (auto simp: Let_def clone_id getDeep_setDeep split: option.splits jsval.splits)






subsection \<open>The secret cache\<close>

lemma update_fresh: "k \<notin> fst ` set al \<Longrightarrow> AList.update k e al = al @ [(k, e)]"
  by (induction al) auto

lemma cacheGet_hit:
  assumes "map_of (cache c) k = Some e" and "\<not> now > expires e"
  shows "cacheGet c k now =
     (Some (ce_value e), c\<lparr>cache := filter (\<lambda>kv. fst kv \<noteq> k) (cache c) @ [(k, e)]\<rparr>)"
proof -
  have "AList.update k e (AList.delete k (cache c)) = AList.delete k (cache c) @ [(k, e)]"
    by (rule update_fresh) (rule delete_notin_dom)
  moreover have "AList.delete k (cache c) = filter (\<lambda>kv. fst kv \<noteq> k) (cache c)"
    by (auto simp: AList.delete_eq case_prod_unfold intro: filter_cong)
  ultimately show ?thesis using assms by (simp add: cacheGet_def)
qed

lemma cacheSet_full:
  assumes "int (length (cache c)) \<ge> maxSize c" and "cache c = (k0, e0) # rest"
    and "k \<notin> fst ` set rest"
  shows "cache (cacheSet c k v ttl now) = rest @ [(k, \<lparr> ce_value = v, expires = now + ttl \<rparr>)]"
  using assms by (simp add: cacheSet_def update_fresh)

text \<open>
  C3, as stated, fails: the cache is the least-recently-used cache its comments announce.
  With \<open>maxSize = 2\<close>, after \<open>key1\<close> and \<open>key2\<close> are set and \<open>key1\<close> is read with
  success, setting \<open>key3\<close> evicts \<open>key2\<close> and keeps the first-inserted \<open>key1\<close>: the
  read has moved \<open>key1\<close> to the end of the eviction order.
\<close>

theorem cache_get_resets_eviction_position:
  "fst (cacheGet (cacheSet (cacheSet (newCache 2) ''key1'' ''value1'' 60000 0)
                    ''key2'' ''value2'' 60000 1) ''key1'' 2) = Some ''value1'' \<and>
   map fst (cache (cacheSet
      (snd (cacheGet (cacheSet (cacheSet (newCache 2) ''key1'' ''value1'' 60000 0)
                        ''key2'' ''value2'' 60000 1) ''key1'' 2))
      ''key3'' ''value3'' 60000 3)) = [''key1'', ''key3'']"
  by (simp add: cacheSet_def newCache_def cacheGet_def)

text \<open>
  C3, amended: when the cache is full, \<open>set\<close> removes the first entry of the cache's
  order, which is the order of insertion except that every successful \<open>get\<close> moves the
  entry read to the end. With \<open>maxSize = 2\<close>, setting three distinct keys with no read
  between them evicts exactly the first-inserted key; a successful read of the first key
  before the third insertion keeps it and evicts the second.
\<close>

theorem cache_eviction_follows_use_order:
  assumes "k1 \<noteq> k2" and "k1 \<noteq> k3" and "k2 \<noteq> k3"
  shows "(\<forall>c k0 e0 rest k v ttl now.
            int (length (cache c)) \<ge> maxSize c \<and> cache c = (k0, e0) # rest \<and> k \<notin> fst ` set rest
            \<longrightarrow> cache (cacheSet c k v ttl now)
                  = rest @ [(k, \<lparr> ce_value = v, expires = now + ttl \<rparr>)]) \<and>
         (\<forall>c k e now.
            map_of (cache c) k = Some e \<and> \<not> now > expires e
            \<longrightarrow> cacheGet c k now =
                  (Some (ce_value e),
                   c\<lparr>cache := filter (\<lambda>kv. fst kv \<noteq> k) (cache c) @ [(k, e)]\<rparr>)) \<and>
         map fst (cache (cacheSet (cacheSet (cacheSet (newCache 2) k1 v1 ttl1 t1)
                                    k2 v2 ttl2 t2) k3 v3 ttl3 t3)) = [k2, k3] \<and>
         (\<not> t > t1 + ttl1 \<longrightarrow>
            (let c2 = cacheSet (cacheSet (newCache 2) k1 v1 ttl1 t1) k2 v2 ttl2 t2;
                 c3 = cacheSet (snd (cacheGet c2 k1 t)) k3 v3 ttl3 t3
             in fst (cacheGet c2 k1 t) = Some v1 \<and> map fst (cache c3) = [k1, k3]))"
proof (intro conjI allI impI)
  fix c :: secretCache and k0 e0 rest k v ttl now
  assume "int (length (cache c)) \<ge> maxSize c \<and> cache c = (k0, e0) # rest \<and> k \<notin> fst ` set rest"
  then show "cache (cacheSet c k v ttl now)
                  = rest @ [(k, \<lparr> ce_value = v, expires = now + ttl \<rparr>)]"
    using cacheSet_full by blast
next
  fix c :: secretCache and k e now
  assume "map_of (cache c) k = Some e \<and> \<not> now > expires e"
  then show "cacheGet c k now =
                  (Some (ce_value e),
                   c\<lparr>cache := filter (\<lambda>kv. fst kv \<noteq> k) (cache c) @ [(k, e)]\<rparr>)"
    using cacheGet_hit by blast
next
  show "map fst (cache (cacheSet (cacheSet (cacheSet (newCache 2) k1 v1 ttl1 t1)
                                    k2 v2 ttl2 t2) k3 v3 ttl3 t3)) = [k2, k3]"
    using assms by (simp add: cacheSet_def newCache_def)
next
  assume "\<not> t > t1 + ttl1"
  then show "(let c2 = cacheSet (cacheSet (newCache 2) k1 v1 ttl1 t1) k2 v2 ttl2 t2;
                 c3 = cacheSet (snd (cacheGet c2 k1 t)) k3 v3 ttl3 t3
             in fst (cacheGet c2 k1 t) = Some v1 \<and> map fst (cache c3) = [k1, k3])"
    using assms by (simp add: cacheSet_def newCache_def cacheGet_def)
qed

theorem cache_eviction_follows_use_order_witness:
  "''key1'' \<noteq> ''key2'' \<and> ''key1'' \<noteq> ''key3'' \<and> ''key2'' \<noteq> ''key3'' \<and>
   map fst (cache (cacheSet (cacheSet (cacheSet (newCache 2) ''key1'' ''value1'' 60000 0)
                              ''key2'' ''value2'' 60000 1) ''key3'' ''value3'' 60000 2))
     = [''key2'', ''key3'']"
proof -
  have d: "''key1'' \<noteq> ''key2''" "''key1'' \<noteq> ''key3''" "''key2'' \<noteq> ''key3''" by simp_all
  from cache_eviction_follows_use_order[OF d, of "''value1''" 60000 0 "''value2''" 60000 1
      "''value3''" 60000 2] d
  show ?thesis by blast
qed

subsection \<open>Secret substitution\<close>

lemmas secret_defs = applySecretsDeep_def mergeRegistry_def settled_def settle_def
  isNotFound_def matchSecret_def fullKeyOf_def reserved_def isAllowed_def patternAllows_def
  keyOnlyOf_def toUpperCase_def toUpperChar_def isUpper_def isDigit_def isIdentRest_def
  trim_def isSpace_def startsWith_def cacheGet_def cacheSet_def isLineTerminator_def
  lookupRef.simps cacheLacks_def Let_def

lemma not_found_follows_policy:
  assumes "pf_outcome pf = Rejected err" and "isNotFound err"
  shows "settle so am st pf =
           (if onNotFound so = OnError then Inl (SecretNotFoundError (pf_fullKey pf))
            else Inr (st\<lparr>l_warnings := l_warnings st @ [SecretNotFound (pf_provider pf) (pf_key pf)],
                        l_resolved := AList.update (pf_fullKey pf) [] (l_resolved st)\<rparr>))"
  using assms by (simp add: settle_def)

text \<open>
  C4 holds for the policies \<open>warn\<close> and \<open>error\<close> (\<open>not_found_follows_policy\<close>), and
  fails for \<open>empty\<close>: the handler tests the policy against \<open>error\<close> only, so under
  \<open>empty\<close> a fetch that fails as not found records the \<open>secret_not_found\<close> warning too.
  The declaration of the option says that \<open>empty\<close> returns the empty string and that
  \<open>warn\<close> adds the warning. The code at the failing input:
\<close>

theorem not_found_under_empty_policy_warns:
  "applySecretsDeep (notFoundOpts OnEmpty) quietAmbient [] missingTree =
     Inr \<lparr> s_value = JObj [(''val'', JStr [])],
           s_warnings = [SecretNotFound ''NF'' ''missing''], s_cache = None \<rparr>"
  by (simp add: notFoundOpts_def notFoundProvider_def quietAmbient_def missingTree_def secret_defs)

lemma not_found_under_warn_and_error:
  "applySecretsDeep (notFoundOpts OnWarn) quietAmbient [] missingTree =
     Inr \<lparr> s_value = JObj [(''val'', JStr [])],
           s_warnings = [SecretNotFound ''NF'' ''missing''], s_cache = None \<rparr>"
  "applySecretsDeep (notFoundOpts OnError) quietAmbient [] missingTree =
     Inl (SecretNotFoundError ''NF:missing'')"
  by (simp_all add: notFoundOpts_def notFoundProvider_def quietAmbient_def missingTree_def
      secret_defs)

lemma collectString_wf: "wfRefs refs \<Longrightarrow> wfRefs (collectString s refs)"
proof (induction s refs rule: collectString.induct)
  case (1 refs)
  then show ?case by simp
next
  case (2 c cs refs)
  show ?case
  proof (cases "matchSecret (c # cs)")
    case None
    with "2.IH"(1) "2.prems" show ?thesis by simp
  next
    case (Some a)
    obtain pk rest where a: "a = (pk, rest)" by (cases a)
    note m = Some[unfolded a]
    show ?thesis
    proof (cases "reserved (fst pk)")
      case True
      with "2.IH"(2)[OF m refl] "2.prems" m show ?thesis by simp
    next
      case False
      show ?thesis
      proof (cases "map_of refs (fullKeyOf (fst pk) (snd pk)) = None")
        case True
        then have "fullKeyOf (fst pk) (snd pk) \<notin> fst ` set refs"
          by (simp add: map_of_eq_None_iff)
        with "2.prems" False
        have "wfRefs (refs @ [(fullKeyOf (fst pk) (snd pk), (fst pk, trim (snd pk)))])"
          by (auto simp: wfRefs_def fullKeyOf_def)
        with "2.IH"(3)[OF m refl False True] m False True show ?thesis by simp
      next
        case n: False
        with "2.IH"(4)[OF m refl False n] "2.prems" m False show ?thesis by auto
      qed
    qed
  qed
qed

lemma collectSecretRefs_wf:
  "wfRefs refs \<Longrightarrow> wfRefs (collectSecretRefs v refs)"
  "wfRefs refs \<Longrightarrow> wfRefs (collectItems xs refs)"
  "wfRefs refs \<Longrightarrow> wfRefs (collectValues kvs refs)"
  by (induction v refs and xs refs and kvs refs
      rule: collectSecretRefs_collectItems_collectValues.induct)
     (simp_all add: collectString_wf)


lemma cacheGet_other_key:
  "k' \<noteq> fk \<Longrightarrow> map_of (cache (snd (cacheGet c k' t))) fk = map_of (cache c) fk"
  by (auto simp: cacheGet_def update_conv' delete_conv' split: option.splits)

lemma cacheGet_absent: "map_of (cache c) fk = None \<Longrightarrow> cacheGet c fk t = (None, c)"
  by (simp add: cacheGet_def)

lemma lookupRef_self:
  assumes "isAllowed fk (allowedSecrets so)" and "cacheLacks (l_cache st) fk"
    and "map_of reg p = None"
  shows "lookupRef so am reg st (fk, p, k) =
           st\<lparr>l_warnings := l_warnings st @ [UnknownProvider p k],
              l_resolved := AList.update fk [] (l_resolved st)\<rparr>"
proof (cases "l_cache st")
  case None
  with assms show ?thesis by (simp add: lookupRef.simps Let_def)
next
  case (Some c)
  with assms(2) have "cacheGet c fk (clockGet am fk) = (None, c)"
    by (simp add: cacheLacks_def cacheGet_absent)
  with Some assms show ?thesis by (simp add: lookupRef.simps Let_def)
qed

lemma lookupRef_other:
  assumes "fk' \<noteq> fk" and "(p', k') \<noteq> (p, k)"
  shows "map_of (l_resolved (lookupRef so am reg st (fk', p', k'))) fk = map_of (l_resolved st) fk"
    and "cacheLacks (l_cache st) fk \<Longrightarrow> cacheLacks (l_cache (lookupRef so am reg st (fk', p', k'))) fk"
    and "pf_fullKey ` set (l_pending (lookupRef so am reg st (fk', p', k')))
           \<subseteq> insert fk' (pf_fullKey ` set (l_pending st))"
    and "\<exists>new. l_warnings (lookupRef so am reg st (fk', p', k')) = l_warnings st @ new \<and>
               count_list new (UnknownProvider p k) = 0"
proof -
  show "map_of (l_resolved (lookupRef so am reg st (fk', p', k'))) fk = map_of (l_resolved st) fk"
    using assms(1) by (auto simp: lookupRef.simps Let_def update_conv' split: option.splits)
  show "cacheLacks (l_cache st) fk \<Longrightarrow> cacheLacks (l_cache (lookupRef so am reg st (fk', p', k'))) fk"
    using assms(1)
    by (auto simp: lookupRef.simps Let_def cacheLacks_def cacheGet_other_key split: option.splits)
  show "pf_fullKey ` set (l_pending (lookupRef so am reg st (fk', p', k')))
           \<subseteq> insert fk' (pf_fullKey ` set (l_pending st))"
    by (auto simp: lookupRef.simps Let_def split: option.splits)
  show "\<exists>new. l_warnings (lookupRef so am reg st (fk', p', k')) = l_warnings st @ new \<and>
               count_list new (UnknownProvider p k) = 0"
    using assms(2) by (auto simp: lookupRef.simps Let_def split: option.splits)
qed


lemma lookup_fold_absent:
  assumes "fk \<notin> fst ` set rs"
    and "\<forall>r\<in>set rs. fst r = fst (snd r) @ '':'' @ snd (snd r)"
    and "fk = p @ '':'' @ k"
  shows "map_of (l_resolved (foldl (lookupRef so am reg) st rs)) fk = map_of (l_resolved st) fk \<and>
         (cacheLacks (l_cache st) fk \<longrightarrow>
            cacheLacks (l_cache (foldl (lookupRef so am reg) st rs)) fk) \<and>
         pf_fullKey ` set (l_pending (foldl (lookupRef so am reg) st rs))
           \<subseteq> fst ` set rs \<union> pf_fullKey ` set (l_pending st) \<and>
         (\<exists>new. l_warnings (foldl (lookupRef so am reg) st rs) = l_warnings st @ new \<and>
                count_list new (UnknownProvider p k) = 0)"
  using assms
proof (induction rs arbitrary: st)
  case Nil
  then show ?case by simp
next
  case (Cons r rs)
  obtain fk' p' k' where r: "r = (fk', p', k')" by (cases r)
  from Cons.prems r have ne: "fk' \<noteq> fk" and f: "fk' = p' @ '':'' @ k'" by auto
  with Cons.prems(3) have pk: "(p', k') \<noteq> (p, k)" by auto
  let ?s1 = "lookupRef so am reg st (fk', p', k')"
  from Cons.prems have a: "fk \<notin> fst ` set rs"
    "\<forall>r\<in>set rs. fst r = fst (snd r) @ '':'' @ snd (snd r)" by auto
  note IH = Cons.IH[OF a Cons.prems(3), where st = ?s1]
  note o = lookupRef_other[OF ne pk, where so = so and am = am and reg = reg and st = st]
  from o(4) obtain n1 where n1: "l_warnings ?s1 = l_warnings st @ n1"
    "count_list n1 (UnknownProvider p k) = 0" by blast
  from IH obtain n2 where n2:
    "l_warnings (foldl (lookupRef so am reg) ?s1 rs) = l_warnings ?s1 @ n2"
    "count_list n2 (UnknownProvider p k) = 0" by blast
  have w: "\<exists>new. l_warnings (foldl (lookupRef so am reg) st (r # rs)) = l_warnings st @ new \<and>
                count_list new (UnknownProvider p k) = 0"
    using n1 n2 r by (intro exI[of _ "n1 @ n2"]) simp
  have res: "map_of (l_resolved (foldl (lookupRef so am reg) st (r # rs))) fk
      = map_of (l_resolved st) fk"
    using IH o(1) r by simp
  have ca: "cacheLacks (l_cache st) fk \<longrightarrow>
            cacheLacks (l_cache (foldl (lookupRef so am reg) st (r # rs))) fk"
    using IH o(2) r by simp
  have pe: "pf_fullKey ` set (l_pending (foldl (lookupRef so am reg) st (r # rs)))
           \<subseteq> fst ` set (r # rs) \<union> pf_fullKey ` set (l_pending st)"
  proof -
    have "pf_fullKey ` set (l_pending (foldl (lookupRef so am reg) ?s1 rs))
           \<subseteq> fst ` set rs \<union> pf_fullKey ` set (l_pending ?s1)" using IH by blast
    with o(3) have "pf_fullKey ` set (l_pending (foldl (lookupRef so am reg) ?s1 rs))
           \<subseteq> insert fk' (fst ` set rs) \<union> pf_fullKey ` set (l_pending st)" by blast
    then show ?thesis using r by simp
  qed
  from res ca pe w show ?case by blast
qed

lemma lookup_fold_unknown:
  assumes "wfRefs rs" and "(fk, p, k) \<in> set rs"
    and "isAllowed fk (allowedSecrets so)" and "cacheLacks (l_cache st) fk"
    and "map_of reg p = None" and "fk \<notin> pf_fullKey ` set (l_pending st)"
  shows "map_of (l_resolved (foldl (lookupRef so am reg) st rs)) fk = Some [] \<and>
         fk \<notin> pf_fullKey ` set (l_pending (foldl (lookupRef so am reg) st rs)) \<and>
         (\<exists>new. l_warnings (foldl (lookupRef so am reg) st rs) = l_warnings st @ new \<and>
                count_list new (UnknownProvider p k) = 1)"
proof -
  from assms(2) obtain pre post where sp: "rs = pre @ (fk, p, k) # post"
    by (auto simp: in_set_conv_decomp)
  from assms(1) have "distinct (map fst rs)" by (simp add: wfRefs_def)
  with sp have d: "fk \<notin> fst ` set pre" "fk \<notin> fst ` set post" by auto
  from assms(1) have all: "\<forall>r\<in>set rs. fst r = fst (snd r) @ '':'' @ snd (snd r)"
    by (simp add: wfRefs_def)
  with sp have f: "\<forall>r\<in>set pre. fst r = fst (snd r) @ '':'' @ snd (snd r)"
           "\<forall>r\<in>set post. fst r = fst (snd r) @ '':'' @ snd (snd r)"
    by simp_all
  from all assms(2) have e: "fk = p @ '':'' @ k" by fastforce
  let ?f = "lookupRef so am reg"
  let ?s1 = "foldl ?f st pre"
  let ?s2 = "?f ?s1 (fk, p, k)"
  let ?s3 = "foldl ?f ?s2 post"
  have fin: "foldl ?f st rs = ?s3" by (simp add: sp)
  note A = lookup_fold_absent[OF d(1) f(1) e, where so = so and am = am and reg = reg and st = st]
  from A assms(4) have c1: "cacheLacks (l_cache ?s1) fk" by blast
  from A assms(6) d(1) have p1: "fk \<notin> pf_fullKey ` set (l_pending ?s1)" by blast
  from A obtain n1 where n1: "l_warnings ?s1 = l_warnings st @ n1"
    "count_list n1 (UnknownProvider p k) = 0" by blast
  have s2: "?s2 = ?s1\<lparr>l_warnings := l_warnings ?s1 @ [UnknownProvider p k],
              l_resolved := AList.update fk [] (l_resolved ?s1)\<rparr>"
    by (rule lookupRef_self[OF assms(3) c1 assms(5)])
  note B = lookup_fold_absent[OF d(2) f(2) e, where so = so and am = am and reg = reg and st = ?s2]
  from B obtain n3 where n3: "l_warnings ?s3 = l_warnings ?s2 @ n3"
    "count_list n3 (UnknownProvider p k) = 0" by blast
  have r3: "map_of (l_resolved ?s3) fk = Some []"
    using B s2 by (simp add: update_conv')
  have p3: "fk \<notin> pf_fullKey ` set (l_pending ?s3)"
  proof -
    have "pf_fullKey ` set (l_pending ?s3) \<subseteq> fst ` set post \<union> pf_fullKey ` set (l_pending ?s2)"
      using B by blast
    moreover have "l_pending ?s2 = l_pending ?s1" using s2 by simp
    ultimately show ?thesis using d(2) p1 by auto
  qed
  have w3: "l_warnings ?s3 = l_warnings st @ (n1 @ [UnknownProvider p k] @ n3)"
    using n1 n3 s2 by simp
  have "count_list (n1 @ [UnknownProvider p k] @ n3) (UnknownProvider p k) = 1"
    using n1 n3 by simp
  with w3 r3 p3 fin show ?thesis by metis
qed


lemma settle_other:
  assumes "settle so am st pf = Inr st'" and "pf_fullKey pf \<noteq> fk"
  shows "map_of (l_resolved st') fk = map_of (l_resolved st) fk \<and>
         (\<exists>new. l_warnings st' = l_warnings st @ new \<and> count_list new (UnknownProvider p k) = 0)"
  using assms
  by (auto simp: settle_def Let_def update_conv' split: fetchOutcome.splits if_splits)

lemma settleAll_other:
  assumes "settleAll so am st pfs = Inr st'" and "fk \<notin> pf_fullKey ` set pfs"
  shows "map_of (l_resolved st') fk = map_of (l_resolved st) fk \<and>
         (\<exists>new. l_warnings st' = l_warnings st @ new \<and> count_list new (UnknownProvider p k) = 0)"
  using assms
proof (induction pfs arbitrary: st)
  case Nil
  then show ?case by simp
next
  case (Cons pf pfs)
  from Cons.prems(1) obtain s1 where s1: "settle so am st pf = Inr s1"
    and r: "settleAll so am s1 pfs = Inr st'"
    by (auto split: sum.splits)
  from Cons.prems(2) have ne: "pf_fullKey pf \<noteq> fk" and n2: "fk \<notin> pf_fullKey ` set pfs" by auto
  from settle_other[OF s1 ne, where p = p and k = k] obtain n1 where
    a: "map_of (l_resolved s1) fk = map_of (l_resolved st) fk"
       "l_warnings s1 = l_warnings st @ n1" "count_list n1 (UnknownProvider p k) = 0" by blast
  from Cons.IH[OF r n2] obtain n2 where
    b: "map_of (l_resolved st') fk = map_of (l_resolved s1) fk"
       "l_warnings st' = l_warnings s1 @ n2" "count_list n2 (UnknownProvider p k) = 0" by blast
  have "l_warnings st' = l_warnings st @ (n1 @ n2)" using a b by simp
  moreover have "count_list (n1 @ n2) (UnknownProvider p k) = 0" using a b by simp
  ultimately show ?case using a b by metis
qed

lemma settled_subset: "set (settled am pending) \<subseteq> set pending"
  by (auto simp: settled_def Let_def)

lemma replaceString_span:
  assumes "matchSecret s = Some ((p, key), rest)" and "\<not> reserved p"
    and "map_of resolved (fullKeyOf p key) = Some []"
  shows "replaceString resolved s = replaceString resolved rest"
proof (cases s)
  case Nil
  with assms(1) show ?thesis by (simp add: matchSecret_def)
next
  case (Cons c cs)
  with assms show ?thesis by simp
qed

text \<open>
  C5, as stated, fails: the allow-list and the cache are consulted before the registry.
  With an allow-list that does not admit \<open>XX:key\<close> the reference is reported as blocked
  and no \<open>unknown_provider\<close> warning is recorded; with a live cache entry under
  \<open>XX:key\<close> the reference resolves to the cached value and nothing is recorded.
\<close>

theorem unknown_provider_blocked_or_cached:
  "applySecretsDeep (plainOpts\<lparr>allowedSecrets := Some [''AWS:*'']\<rparr>) quietAmbient [] unknownTree =
     Inr \<lparr> s_value = JObj [(''a'', JStr ''xy''), (''b'', JArr [JStr [], JStr ''${ENV:HOME}''])],
           s_warnings = [BlockedSecret ''XX'' ''key''], s_cache = None \<rparr> \<and>
   applySecretsDeep
     (plainOpts\<lparr>optCache :=
        Some \<lparr>maxSize = 100, cache = [(''XX:key'', \<lparr>ce_value = ''old'', expires = 10\<rparr>)]\<rparr>\<rparr>)
     quietAmbient [] unknownTree =
     Inr \<lparr> s_value = JObj [(''a'', JStr ''xoldy''),
                            (''b'', JArr [JStr ''old'', JStr ''old${ENV:HOME}''])],
           s_warnings = [],
           s_cache =
             Some \<lparr>maxSize = 100, cache = [(''XX:key'', \<lparr>ce_value = ''old'', expires = 10\<rparr>)]\<rparr> \<rparr>"
  by (simp add: plainOpts_def quietAmbient_def unknownTree_def secret_defs)

text \<open>
  C5, amended: a secret reference whose prefix has no registered provider, which the
  allow-list admits and for which the cache holds no entry, resolves to the empty string
  in every string leaf (each of its spans is replaced by nothing), and exactly one
  \<open>unknown_provider\<close> warning for its prefix and key is added to the warnings, however
  many leaves contain it, whenever the substitution returns.
\<close>

theorem unknown_provider_resolves_empty_once:
  assumes "(fk, p, k) \<in> set (collectSecretRefs v [])"
    and "isAllowed fk (allowedSecrets so)"
    and "cacheLacks (optCache so) fk"
    and "map_of (mergeRegistry (globalRegistry am) (providers so)) p = None"
    and "applySecretsDeep so am ws v = Inr res"
  shows "\<exists>resolved new.
           s_value res = replaceSecrets resolved v \<and>
           map_of resolved fk = Some [] \<and>
           (\<forall>s key rest. matchSecret s = Some ((p, key), rest) \<and> trim key = k
               \<longrightarrow> replaceString resolved s = replaceString resolved rest) \<and>
           s_warnings res = ws @ new \<and>
           count_list new (UnknownProvider p k) = 1"
proof -
  let ?reg = "mergeRegistry (globalRegistry am) (providers so)"
  let ?refs = "collectSecretRefs v []"
  let ?init = "\<lparr> l_warnings = ws, l_resolved = [], l_cache = optCache so, l_pending = [] \<rparr>"
  let ?st = "foldl (lookupRef so am ?reg) ?init ?refs"
  have wf: "wfRefs ?refs" by (rule collectSecretRefs_wf) (simp add: wfRefs_def)
  from assms(1) have ne: "?refs \<noteq> []" by auto
  from wf assms(1) have fk: "fk = p @ '':'' @ k" and nr: "\<not> reserved p"
    by (fastforce simp: wfRefs_def)+
  have L: "map_of (l_resolved ?st) fk = Some [] \<and>
         fk \<notin> pf_fullKey ` set (l_pending ?st) \<and>
         (\<exists>new. l_warnings ?st = l_warnings ?init @ new \<and>
                count_list new (UnknownProvider p k) = 1)"
    by (rule lookup_fold_unknown[OF wf assms(1) assms(2) _ assms(4)]) (simp_all add: assms(3))
  then obtain n1 where n1: "l_warnings ?st = ws @ n1" "count_list n1 (UnknownProvider p k) = 1"
    by auto
  from assms(5) ne obtain st' where
    sa: "settleAll so am ?st (settled am (l_pending ?st)) = Inr st'"
    and res: "res = \<lparr> s_value = replaceSecrets (l_resolved st') v,
                       s_warnings = l_warnings st', s_cache = l_cache st' \<rparr>"
    by (auto simp: applySecretsDeep_def Let_def split: sum.splits)
  have "fk \<notin> pf_fullKey ` set (settled am (l_pending ?st))"
    using L settled_subset[of am "l_pending ?st"] by blast
  from settleAll_other[OF sa this, where p = p and k = k] obtain n2 where
    n2: "map_of (l_resolved st') fk = map_of (l_resolved ?st) fk"
        "l_warnings st' = l_warnings ?st @ n2" "count_list n2 (UnknownProvider p k) = 0" by blast
  have r: "map_of (l_resolved st') fk = Some []" using n2 L by simp
  have sp: "\<forall>s key rest. matchSecret s = Some ((p, key), rest) \<and> trim key = k
               \<longrightarrow> replaceString (l_resolved st') s = replaceString (l_resolved st') rest"
  proof (intro allI impI)
    fix s key rest
    assume a: "matchSecret s = Some ((p, key), rest) \<and> trim key = k"
    then have "fullKeyOf p key = fk" using fk by (simp add: fullKeyOf_def)
    with r a nr show "replaceString (l_resolved st') s = replaceString (l_resolved st') rest"
      by (intro replaceString_span) auto
  qed
  have w: "s_warnings res = ws @ (n1 @ n2)" using res n1 n2 by simp
  have c: "count_list (n1 @ n2) (UnknownProvider p k) = 1" using n1 n2 by simp
  have v: "s_value res = replaceSecrets (l_resolved st') v" using res by simp
  from v r sp w c show ?thesis by blast
qed

theorem unknown_provider_resolves_empty_once_witness:
  "(''XX:key'', ''XX'', ''key'') \<in> set (collectSecretRefs unknownTree []) \<and>
   isAllowed ''XX:key'' (allowedSecrets plainOpts) \<and>
   cacheLacks (optCache plainOpts) ''XX:key'' \<and>
   map_of (mergeRegistry (globalRegistry quietAmbient) (providers plainOpts)) ''XX'' = None \<and>
   applySecretsDeep plainOpts quietAmbient [] unknownTree =
     Inr \<lparr> s_value = JObj [(''a'', JStr ''xy''), (''b'', JArr [JStr [], JStr ''${ENV:HOME}''])],
           s_warnings = [UnknownProvider ''XX'' ''key''], s_cache = None \<rparr> \<and>
   (\<exists>resolved new.
      JObj [(''a'', JStr ''xy''), (''b'', JArr [JStr [], JStr ''${ENV:HOME}''])]
        = replaceSecrets resolved unknownTree \<and>
      map_of resolved ''XX:key'' = Some [] \<and>
      [UnknownProvider ''XX'' ''key''] = [] @ new \<and>
      count_list new (UnknownProvider ''XX'' ''key'') = 1)"
proof -
  have h1: "(''XX:key'', ''XX'', ''key'') \<in> set (collectSecretRefs unknownTree [])"
    by (simp add: unknownTree_def secret_defs)
  have h2: "isAllowed ''XX:key'' (allowedSecrets plainOpts)"
    by (simp add: plainOpts_def isAllowed_def)
  have h3: "cacheLacks (optCache plainOpts) ''XX:key''"
    by (simp add: plainOpts_def cacheLacks_def)
  have h4: "map_of (mergeRegistry (globalRegistry quietAmbient) (providers plainOpts)) ''XX'' = None"
    by (simp add: plainOpts_def quietAmbient_def mergeRegistry_def)
  have h5: "applySecretsDeep plainOpts quietAmbient [] unknownTree =
     Inr \<lparr> s_value = JObj [(''a'', JStr ''xy''), (''b'', JArr [JStr [], JStr ''${ENV:HOME}''])],
           s_warnings = [UnknownProvider ''XX'' ''key''], s_cache = None \<rparr>"
    by (simp add: plainOpts_def quietAmbient_def unknownTree_def secret_defs)
  from unknown_provider_resolves_empty_once[OF h1 h2 h3 h4 h5]
  have "\<exists>resolved new.
      JObj [(''a'', JStr ''xy''), (''b'', JArr [JStr [], JStr ''${ENV:HOME}''])]
        = replaceSecrets resolved unknownTree \<and>
      map_of resolved ''XX:key'' = Some [] \<and>
      [UnknownProvider ''XX'' ''key''] = [] @ new \<and>
      count_list new (UnknownProvider ''XX'' ''key'') = 1"
    by (simp only: secretsResult.simps) blast
  with h1 h2 h3 h4 h5 show ?thesis by blast
qed

subsection \<open>Placeholder substitution and the spans it leaves\<close>

lemma matchPlaceholder_text:
  assumes "matchPlaceholder s = Some (inner, rest)"
  shows "s = ''${'' @ inner @ ''}'' @ rest"
proof -
  let ?P = "\<lambda>x. x \<noteq> CHR ''}''"
  from assms obtain t where s: "s = CHR ''$'' # CHR ''{'' # t"
    and i: "inner = takeWhile ?P t" and d: "dropWhile ?P t \<noteq> []"
    and r: "rest = tl (dropWhile ?P t)"
    by (auto simp: matchPlaceholder_def Let_def split: list.splits if_splits)
  from d have "hd (dropWhile ?P t) = CHR ''}''" using hd_dropWhile[of ?P t] by simp
  with d r have "dropWhile ?P t = CHR ''}'' # rest" by (cases "dropWhile ?P t") auto
  then have "t = inner @ CHR ''}'' # rest" using i takeWhile_dropWhile_id[of ?P t] by simp
  with s show ?thesis by simp
qed

lemma rxSecretProvider_not_ctx: "rxSecretProvider e \<Longrightarrow> \<not> startsWith e ''ctx.''"
  by (cases e) (auto simp: rxSecretProvider_def startsWith_def isUpper_def)

lemma interpolateSpan_secretShaped:
  "secretShaped inner \<Longrightarrow> interpolateSpan opts m inner = (m, [])"
  by (simp add: secretShaped_def interpolateSpan_def Let_def rxSecretProvider_not_ctx)

lemma interpolate_secretShaped:
  "allSpans secretShaped s \<Longrightarrow> interpolate opts s = (s, [])"
proof (induction secretShaped s rule: allSpans.induct)
  case 1
  then show ?case by simp
next
  case (2 c cs)
  show ?case
  proof (cases "matchPlaceholder (c # cs)")
    case None
    with 2 show ?thesis by simp
  next
    case (Some a)
    obtain inner rest where a: "a = (inner, rest)" by (cases a)
    note m = Some[unfolded a]
    from "2.prems" m have sh: "secretShaped inner" and r: "allSpans secretShaped rest" by simp_all
    from "2.hyps"(2)[OF m refl r] have "interpolate opts rest = (rest, [])" .
    with m sh matchPlaceholder_text[OF m] show ?thesis
      by (simp add: interpolateSpan_secretShaped)
  qed
qed

lemma allSpans_mono: "allSpans P s \<Longrightarrow> (\<And>x. P x \<Longrightarrow> Q x) \<Longrightarrow> allSpans Q s"
proof (induction P s rule: allSpans.induct)
  case (1 P)
  then show ?case by simp
next
  case (2 P c cs)
  then show ?case by (cases "matchPlaceholder (c # cs)") auto
qed

lemma applyInterpolationDeep_secretShaped:
  "treeSpans secretShaped v \<Longrightarrow> applyInterpolationDeep opts v = (v, [])"
  "list_all (treeSpans secretShaped) xs \<Longrightarrow> interpolateItems opts xs = (xs, [])"
  "list_all (\<lambda>kv. treeSpans secretShaped (snd kv)) kvs \<Longrightarrow> interpolateEntries opts kvs = (kvs, [])"
  by (induction opts v and opts xs and opts kvs
      rule: applyInterpolationDeep_interpolateItems_interpolateEntries.induct)
     (simp_all add: interpolate_secretShaped)


lemma ident_not_brace: "isIdentRest c \<Longrightarrow> c \<noteq> CHR ''}'' \<and> c \<noteq> CHR '':'' \<and> \<not> isSpace c"
  by (auto simp: isIdentRest_def isUpper_def isDigit_def isSpace_def)

lemma upper_ident: "isUpper c \<Longrightarrow> isIdentRest c"
  by (simp add: isIdentRest_def)

lemma matchSecret_parts:
  assumes "matchSecret s = Some ((p, key), rest)"
  shows "s = ''${'' @ p @ '':'' @ key @ ''}'' @ rest"
    and "p \<noteq> []" and "\<forall>c\<in>set p. isIdentRest c" and "isUpper (hd p)"
    and "key \<noteq> []" and "\<forall>c\<in>set key. c \<noteq> CHR ''}''"
proof -
  let ?P = "\<lambda>x. x \<noteq> CHR ''}''"
  from assms obtain u t t2 where s: "s = CHR ''$'' # CHR ''{'' # u # t"
    and u: "isUpper u" and d1: "dropWhile isIdentRest t = CHR '':'' # t2"
    and p: "p = u # takeWhile isIdentRest t"
    and k: "key = takeWhile ?P t2" "key \<noteq> []"
    and d2: "dropWhile ?P t2 \<noteq> []" and r: "rest = tl (dropWhile ?P t2)"
    by (auto simp: matchSecret_def Let_def split: list.splits if_splits)
  from d2 have "hd (dropWhile ?P t2) = CHR ''}''" using hd_dropWhile[of ?P t2] by simp
  with d2 r have "dropWhile ?P t2 = CHR ''}'' # rest" by (cases "dropWhile ?P t2") auto
  then have t2: "t2 = key @ CHR ''}'' # rest" using k takeWhile_dropWhile_id[of ?P t2] by simp
  have "t = takeWhile isIdentRest t @ CHR '':'' # t2"
    using d1 takeWhile_dropWhile_id[of isIdentRest t] by simp
  with s p t2 show "s = ''${'' @ p @ '':'' @ key @ ''}'' @ rest" by simp
  show "p \<noteq> []" using p by simp
  show "\<forall>c\<in>set p. isIdentRest c" using p u by (auto simp: upper_ident dest: set_takeWhileD)
  show "isUpper (hd p)" using p u by simp
  show "key \<noteq> []" by fact
  show "\<forall>c\<in>set key. c \<noteq> CHR ''}''" using k by (auto dest: set_takeWhileD)
qed

lemma matchSecret_placeholder:
  assumes "matchSecret s = Some ((p, key), rest)"
  shows "matchPlaceholder s = Some (p @ '':'' @ key, rest)"
proof -
  let ?P = "\<lambda>x. x \<noteq> CHR ''}''"
  note m = matchSecret_parts[OF assms]
  have a: "\<forall>c\<in>set (p @ '':'' @ key). ?P c" using m(3) m(6) ident_not_brace by auto
  have t1: "takeWhile ?P ((p @ '':'' @ key) @ CHR ''}'' # rest) = p @ '':'' @ key"
    using a by (intro takeWhile_tail[THEN trans]) auto
  have t2: "dropWhile ?P ((p @ '':'' @ key) @ CHR ''}'' # rest) = CHR ''}'' # rest"
    using a by (subst dropWhile_append2) auto
  have "s = CHR ''$'' # CHR ''{'' # ((p @ '':'' @ key) @ CHR ''}'' # rest)" using m(1) by simp
  then show ?thesis using t1 t2 m(2) by (simp add: matchPlaceholder_def Let_def)
qed





lemma secretFree_fixed:
  "secretFree s \<Longrightarrow> replaceString resolved s = s \<and> collectString s refs = refs"
proof (induction s arbitrary: refs rule: secretFree.induct)
  case 1
  then show ?case by simp
next
  case (2 c cs)
  show ?case
  proof (cases "matchSecret (c # cs)")
    case None
    with 2 show ?thesis by simp
  next
    case (Some a)
    obtain pk rest where a: "a = (pk, rest)" by (cases a)
    obtain p key where pk: "pk = (p, key)" by (cases pk)
    note m = Some[unfolded a]
    from "2.prems" m have r: "reserved (fst pk)" "secretFree rest" by simp_all
    note IH = "2.IH"(2)[OF m refl r(2)]
    have "c # cs = ''${'' @ p @ '':'' @ key @ ''}'' @ rest"
      using matchSecret_parts(1)[OF m[unfolded pk]] .
    with IH m r pk show ?thesis by simp
  qed
qed

lemma noSpans_secretFree: "allSpans (\<lambda>inner. False) s \<Longrightarrow> secretFree s"
proof (induction s)
  case Nil
  then show ?case by simp
next
  case (Cons c cs)
  from Cons.prems have n: "matchPlaceholder (c # cs) = None" and r: "allSpans (\<lambda>inner. False) cs"
    by (auto split: option.splits)
  have "matchSecret (c # cs) = None"
  proof (rule ccontr)
    assume "matchSecret (c # cs) \<noteq> None"
    then obtain p key rest where "matchSecret (c # cs) = Some ((p, key), rest)" by auto
    from matchSecret_placeholder[OF this] n show False by simp
  qed
  with Cons.IH[OF r] show ?case by simp
qed

lemma treeSecretFree_fixed:
  "treeSecretFree v \<Longrightarrow> replaceSecrets resolved v = v"
proof (induction v)
  case (JArr xs)
  then show ?case by (simp add: list_all_iff map_idI)
next
  case (JObj kvs)
  have "map (\<lambda>kv. (fst kv, replaceSecrets resolved (snd kv))) kvs = kvs"
  proof (rule map_idI)
    fix kv assume kv: "kv \<in> set kvs"
    with JObj.prems have "treeSecretFree (snd kv)" by (simp add: list_all_iff)
    moreover have "snd kv \<in> Basic_BNFs.snds kv" by (cases kv) simp
    ultimately have "replaceSecrets resolved (snd kv) = snd kv"
      using JObj.IH kv by blast
    then show "(fst kv, replaceSecrets resolved (snd kv)) = kv" by simp
  qed
  then show ?case by simp
qed (simp_all add: secretFree_fixed)

lemma treeSecretFree_no_refs:
  "treeSecretFree v \<Longrightarrow> collectSecretRefs v refs = refs"
  "list_all treeSecretFree xs \<Longrightarrow> collectItems xs refs = refs"
  "list_all (\<lambda>kv. treeSecretFree (snd kv)) kvs \<Longrightarrow> collectValues kvs refs = refs"
  by (induction v refs and xs refs and kvs refs
      rule: collectSecretRefs_collectItems_collectValues.induct)
     (simp_all add: secretFree_fixed)

lemma noSpans_treeSecretFree: "noSpans v \<Longrightarrow> treeSecretFree v"
  unfolding noSpans_def
proof (induction v)
  case (JArr xs)
  then show ?case by (simp add: list_all_iff)
next
  case (JObj kvs)
  have "\<forall>kv\<in>set kvs. treeSecretFree (snd kv)"
  proof
    fix kv assume kv: "kv \<in> set kvs"
    with JObj.prems have "treeSpans (\<lambda>inner. False) (snd kv)" by (simp add: list_all_iff)
    moreover have "snd kv \<in> Basic_BNFs.snds kv" by (cases kv) simp
    ultimately show "treeSecretFree (snd kv)" using JObj.IH kv by blast
  qed
  then show ?case by (simp add: list_all_iff)
qed (simp_all add: noSpans_secretFree)

lemma noSpans_secretShaped: "noSpans v \<Longrightarrow> treeSpans secretShaped v"
  unfolding noSpans_def
proof (induction v)
  case (JArr xs)
  then show ?case by (simp add: list_all_iff)
next
  case (JObj kvs)
  have "\<forall>kv\<in>set kvs. treeSpans secretShaped (snd kv)"
  proof
    fix kv assume kv: "kv \<in> set kvs"
    with JObj.prems have "treeSpans (\<lambda>inner. False) (snd kv)" by (simp add: list_all_iff)
    moreover have "snd kv \<in> Basic_BNFs.snds kv" by (cases kv) simp
    ultimately show "treeSpans secretShaped (snd kv)" using JObj.IH kv by blast
  qed
  then show ?case by (simp add: list_all_iff)
next
  case (JStr s)
  then show ?case using allSpans_mono[of "\<lambda>inner. False" s secretShaped] by simp
qed simp_all


lemmas interp_defs = interpolateSpan_def matchPlaceholder_def rxSecretProvider_def envSource_def
  trim_def isSpace_def startsWith_def isUpper_def isDigit_def isIdentRest_def secretShaped_def
  Let_def



subsection \<open>Substitution on trees without spans\<close>

text \<open>
  C7, as stated, fails: a second pass over the output of a first pass can change it, since a
  substituted value may itself be a placeholder. With the variable \<open>template\<close> set to
  \<open>${ctx.env}\<close>, the leaf \<open>${VAR:template}\<close> becomes \<open>${ctx.env}\<close> in the first pass and
  \<open>prod\<close> in the second; a secret whose value is \<open>${B:k}\<close> does the same to
  \<open>replaceSecrets\<close>.
\<close>

theorem substitution_not_idempotent:
  "fst (applyInterpolationDeep nestedOpts (JStr ''${VAR:template}'')) = JStr ''${ctx.env}'' \<and>
   fst (applyInterpolationDeep nestedOpts
          (fst (applyInterpolationDeep nestedOpts (JStr ''${VAR:template}'')))) = JStr ''prod'' \<and>
   replaceSecrets nestedResolved (JStr ''${A:k}'') = JStr ''${B:k}'' \<and>
   replaceSecrets nestedResolved (replaceSecrets nestedResolved (JStr ''${A:k}'')) = JStr ''v''"
  by (simp add: nestedOpts_def nestedResolved_def interp_defs matchSecret_def reserved_def
      fullKeyOf_def)

text \<open>
  C7, amended: on a tree whose string leaves contain no span, placeholder substitution
  returns the same tree and records no warning, and secret substitution returns the same
  tree, warnings and cache; a second pass over the output of a first pass yields the same
  tree when that output holds no span the pass substitutes (for the placeholder pass:
  only secret-shaped spans; for the secret pass: only matches with a reserved provider).
\<close>

theorem substitution_noop_without_spans:
  "(noSpans v \<longrightarrow>
      applyInterpolationDeep opts v = (v, []) \<and>
      replaceSecrets resolved v = v \<and>
      applySecretsDeep so am ws v = Inr \<lparr> s_value = v, s_warnings = ws, s_cache = optCache so \<rparr>) \<and>
   (treeSpans secretShaped (fst (applyInterpolationDeep opts v)) \<longrightarrow>
      applyInterpolationDeep opts (fst (applyInterpolationDeep opts v))
        = (fst (applyInterpolationDeep opts v), [])) \<and>
   (treeSecretFree (replaceSecrets resolved v) \<longrightarrow>
      replaceSecrets resolved' (replaceSecrets resolved v) = replaceSecrets resolved v)"
proof (intro conjI impI)
  assume n: "noSpans v"
  show "applyInterpolationDeep opts v = (v, [])"
    by (rule applyInterpolationDeep_secretShaped(1)[OF noSpans_secretShaped[OF n]])
  show "replaceSecrets resolved v = v"
    by (rule treeSecretFree_fixed[OF noSpans_treeSecretFree[OF n]])
  have "collectSecretRefs v [] = []"
    by (rule treeSecretFree_no_refs(1)[OF noSpans_treeSecretFree[OF n]])
  then show "applySecretsDeep so am ws v
      = Inr \<lparr> s_value = v, s_warnings = ws, s_cache = optCache so \<rparr>"
    by (simp add: applySecretsDeep_def)
next
  assume "treeSpans secretShaped (fst (applyInterpolationDeep opts v))"
  then show "applyInterpolationDeep opts (fst (applyInterpolationDeep opts v))
        = (fst (applyInterpolationDeep opts v), [])"
    by (rule applyInterpolationDeep_secretShaped(1))
next
  assume "treeSecretFree (replaceSecrets resolved v)"
  then show "replaceSecrets resolved' (replaceSecrets resolved v) = replaceSecrets resolved v"
    by (rule treeSecretFree_fixed)
qed

theorem substitution_noop_without_spans_witness:
  "noSpans (JObj [(''plain'', JStr ''va$lue{}''), (''nested'', JArr [JNum 42, JStr ''${}''])]) \<and>
   applyInterpolationDeep (ctxOnly Map.empty)
       (JObj [(''plain'', JStr ''va$lue{}''), (''nested'', JArr [JNum 42, JStr ''${}''])])
     = (JObj [(''plain'', JStr ''va$lue{}''), (''nested'', JArr [JNum 42, JStr ''${}''])], []) \<and>
   applySecretsDeep plainOpts quietAmbient []
       (JObj [(''plain'', JStr ''va$lue{}''), (''nested'', JArr [JNum 42, JStr ''${}''])])
     = Inr \<lparr> s_value = JObj [(''plain'', JStr ''va$lue{}''),
                             (''nested'', JArr [JNum 42, JStr ''${}''])],
            s_warnings = [], s_cache = optCache plainOpts \<rparr> \<and>
   treeSpans secretShaped
     (fst (applyInterpolationDeep (ctxOnly [''env'' \<mapsto> ''prod'']) (JStr ''${AWS:k} in ${ctx.env}''))) \<and>
   applyInterpolationDeep (ctxOnly [''env'' \<mapsto> ''prod''])
       (fst (applyInterpolationDeep (ctxOnly [''env'' \<mapsto> ''prod'']) (JStr ''${AWS:k} in ${ctx.env}'')))
     = (JStr ''${AWS:k} in prod'', []) \<and>
   treeSecretFree (replaceSecrets [(''AWS:k'', ''s3cret'')] (JStr ''${AWS:k} ${ENV:HOME}'')) \<and>
   replaceSecrets [] (replaceSecrets [(''AWS:k'', ''s3cret'')] (JStr ''${AWS:k} ${ENV:HOME}''))
     = JStr ''s3cret ${ENV:HOME}''"
proof -
  let ?v = "JObj [(''plain'', JStr ''va$lue{}''), (''nested'', JArr [JNum 42, JStr ''${}''])]"
  let ?o = "ctxOnly [''env'' \<mapsto> ''prod'']"
  have n: "noSpans ?v" by (simp add: noSpans_def matchPlaceholder_def)
  from substitution_noop_without_spans[of ?v "ctxOnly Map.empty" "[]" plainOpts quietAmbient "[]"] n
  have c1: "applyInterpolationDeep (ctxOnly Map.empty) ?v = (?v, [])"
    and c2: "applySecretsDeep plainOpts quietAmbient [] ?v
               = Inr \<lparr> s_value = ?v, s_warnings = [], s_cache = optCache plainOpts \<rparr>"
    by blast+
  have f: "fst (applyInterpolationDeep ?o (JStr ''${AWS:k} in ${ctx.env}'')) = JStr ''${AWS:k} in prod''"
    by (simp add: interp_defs ctxOnly_def)
  have t: "treeSpans secretShaped (fst (applyInterpolationDeep ?o (JStr ''${AWS:k} in ${ctx.env}'')))"
    unfolding f by (simp add: interp_defs)
  from substitution_noop_without_spans[of "JStr ''${AWS:k} in ${ctx.env}''" ?o "[]" plainOpts
      quietAmbient "[]"] t
  have "applyInterpolationDeep ?o (fst (applyInterpolationDeep ?o (JStr ''${AWS:k} in ${ctx.env}'')))
     = (fst (applyInterpolationDeep ?o (JStr ''${AWS:k} in ${ctx.env}'')), [])"
    by blast
  with f have c3: "applyInterpolationDeep ?o
       (fst (applyInterpolationDeep ?o (JStr ''${AWS:k} in ${ctx.env}'')))
     = (JStr ''${AWS:k} in prod'', [])" by simp
  have g: "replaceSecrets [(''AWS:k'', ''s3cret'')] (JStr ''${AWS:k} ${ENV:HOME}'')
      = JStr ''s3cret ${ENV:HOME}''"
    by (simp add: matchSecret_def reserved_def fullKeyOf_def interp_defs)
  have sf: "treeSecretFree (replaceSecrets [(''AWS:k'', ''s3cret'')] (JStr ''${AWS:k} ${ENV:HOME}''))"
    unfolding g by (simp add: matchSecret_def reserved_def interp_defs)
  from substitution_noop_without_spans[of "JStr ''${AWS:k} ${ENV:HOME}''" ?o
      "[(''AWS:k'', ''s3cret'')]" plainOpts quietAmbient "[]" "[]"] sf
  have "replaceSecrets [] (replaceSecrets [(''AWS:k'', ''s3cret'')] (JStr ''${AWS:k} ${ENV:HOME}''))
     = replaceSecrets [(''AWS:k'', ''s3cret'')] (JStr ''${AWS:k} ${ENV:HOME}'')"
    by blast
  with g have c4: "replaceSecrets [] (replaceSecrets [(''AWS:k'', ''s3cret'')]
      (JStr ''${AWS:k} ${ENV:HOME}'')) = JStr ''s3cret ${ENV:HOME}''" by simp
  from n c1 c2 t c3 sf c4 show ?thesis by blast
qed

subsection \<open>Heredocs\<close>

lemma parseLine_start:
  assumes "\<not> inHeredoc st" and "heredocStarts row key oper delim"
  shows "parseLine pe st n row =
           Inr (st\<lparr>inHeredoc := True, heredocKey := trim key, heredocOp := oper,
                   heredocDelimiter := delim,
                   heredocStartLine := getOriginalLine (lineMap pe) n,
                   heredocContent := []\<rparr>)"
  using assms by (simp add: parseLine_def heredocStarts_def Let_def)

lemma parseLine_content:
  assumes "inHeredoc st" and "trim row \<noteq> heredocDelimiter st"
  shows "parseLine pe st n row =
           Inr (st\<lparr>heredocContent := heredocAppend (heredocContent st) row\<rparr>)"
  using assms by (simp add: parseLine_def heredocAppend_def Let_def)

lemma parseLine_end:
  assumes "inHeredoc st" and "trim row = heredocDelimiter st"
    and "parseKeyPath (heredocKey st) \<noteq> []"
  shows "parseLine pe st n row =
           Inr (st\<lparr>p_rules := p_rules st @ [heredocRule pe st (parseKeyPath (heredocKey st))],
                   inHeredoc := False, heredocContent := []\<rparr>)"
  using assms by (simp add: parseLine_def Let_def)

lemma parseLines_append:
  "parseLines pe st n (xs @ ys) =
     (case parseLines pe st n xs of
        Inl e \<Rightarrow> Inl e
      | Inr st' \<Rightarrow> parseLines pe st' (n + length xs) ys)"
  by (induction xs arbitrary: st n) (auto split: sum.splits)

lemma parseLines_content:
  assumes "inHeredoc st" and "\<forall>l\<in>set rows. trim l \<noteq> heredocDelimiter st"
  shows "parseLines pe st n rows =
           Inr (st\<lparr>heredocContent := foldl heredocAppend (heredocContent st) rows\<rparr>)"
  using assms
proof (induction rows arbitrary: st n)
  case Nil
  then show ?case by simp
next
  case (Cons r rows)
  let ?s1 = "st\<lparr>heredocContent := heredocAppend (heredocContent st) r\<rparr>"
  have 1: "parseLine pe st n r = Inr ?s1"
    using Cons.prems by (intro parseLine_content) auto
  have "parseLines pe ?s1 (Suc n) rows =
      Inr (?s1\<lparr>heredocContent := foldl heredocAppend (heredocContent ?s1) rows\<rparr>)"
    using Cons.prems by (intro Cons.IH) auto
  with 1 show ?case by simp
qed

lemma foldl_heredocAppend_nonempty:
  "c \<noteq> [] \<Longrightarrow> foldl heredocAppend c rows = c @ concat (map (\<lambda>l. CHR 0x0A # l) rows)"
  by (induction rows arbitrary: c) (auto simp: heredocAppend_def)

lemma joinWith_concat: "joinWith sep (x # xs) = x @ concat (map (\<lambda>l. sep @ l) xs)"
  by (induction xs arbitrary: x) auto

lemma heredoc_content_joined:
  assumes "content = [] \<or> hd content \<noteq> []"
  shows "foldl heredocAppend [] content = joinWith [CHR 0x0A] content"
proof (cases content)
  case Nil
  then show ?thesis by simp
next
  case (Cons x xs)
  with assms have "x \<noteq> []" by simp
  then have "foldl heredocAppend [] (x # xs) = x @ concat (map (\<lambda>l. CHR 0x0A # l) xs)"
    by (simp add: foldl_heredocAppend_nonempty heredocAppend_def)
  with Cons show ?thesis by (simp add: joinWith_concat)
qed


lemma getOriginalLine_id: "getOriginalLine (map Suc [0..<N]) n = n"
  by (auto simp: getOriginalLine_def)

lemma lineMap_penvOf: "getOriginalLine (lineMap (penvOf j fp pod text)) n = n"
  by (simp add: penvOf_def stripBlockComments_def Let_def getOriginalLine_id)

lemma parseColony_penvOf:
  "parseColony j fp pod text =
     (case parseLines (penvOf j fp pod text) initialState 1 (cleanedLines text) of
        Inl e \<Rightarrow> Inl e
      | Inr st \<Rightarrow>
          if inHeredoc st
            then Inl (ParseError (UnterminatedHeredoc (heredocDelimiter st)) (heredocStartLine st))
          else if trim (buf st) \<noteq> []
            then Inl (ParseError UnterminatedStatement (bufStartOriginalLine st))
          else Inr (parsed.truncate st))"
  by (simp add: parseColony_def penvOf_def Let_def)

lemma envDefaultsLoop_rules:
  "envDefaultsLoop n st ps = Inr st' \<Longrightarrow> p_rules st' = p_rules st"
  by (induction ps arbitrary: st) (auto simp: Let_def split: if_splits)

lemma flush_rules:
  assumes "flush pe st = Inr st'"
  shows "\<exists>extra. p_rules st' = p_rules st @ extra"
proof -
  let ?raw = "trim (buf st)"
  let ?s = "st\<lparr>buf := []\<rparr>"
  consider (e) "?raw = []"
    | (d) "?raw \<noteq> []" "rxDirective ''@dims'' ?raw \<noteq> None"
    | (i) "?raw \<noteq> []" "rxDirective ''@dims'' ?raw = None" "rxInclude ?raw \<noteq> None"
    | (r) "?raw \<noteq> []" "rxDirective ''@dims'' ?raw = None" "rxInclude ?raw = None"
          "rxDirective ''@require'' ?raw \<noteq> None"
    | (v) "?raw \<noteq> []" "rxDirective ''@dims'' ?raw = None" "rxInclude ?raw = None"
          "rxDirective ''@require'' ?raw = None" "rxDirective ''@envDefaults'' ?raw \<noteq> None"
    | (o) "?raw \<noteq> []" "rxDirective ''@dims'' ?raw = None" "rxInclude ?raw = None"
          "rxDirective ''@require'' ?raw = None" "rxDirective ''@envDefaults'' ?raw = None"
    by blast
  then show ?thesis
  proof cases
    case e
    with assms show ?thesis by (auto simp: flush_def Let_def)
  next
    case d
    with assms show ?thesis by (auto simp: flush_def Let_def)
  next
    case i
    with assms show ?thesis by (auto simp: flush_def Let_def)
  next
    case r
    with assms show ?thesis by (auto simp: flush_def Let_def)
  next
    case v
    with assms have "envDefaultsLoop (bufStartOriginalLine st) ?s
        (commaList (the (rxDirective ''@envDefaults'' ?raw))) = Inr st'"
      by (simp add: flush_def Let_def)
    from envDefaultsLoop_rules[OF this] show ?thesis by simp
  next
    case o
    show ?thesis
    proof (cases "parseOnlyDirectives pe")
      case True
      with o assms show ?thesis by (auto simp: flush_def Let_def)
    next
      case False
      with o assms have "flushRule pe (bufStartOriginalLine st) ?raw ?s = Inr st'"
        by (simp add: flush_def Let_def)
      then show ?thesis
        by (auto simp: flushRule_def Let_def split: option.splits if_splits)
    qed
  qed
qed

lemma parseLine_rules:
  assumes "parseLine pe st n row = Inr st'"
  shows "\<exists>extra. p_rules st' = p_rules st @ extra"
proof (cases "inHeredoc st")
  case True
  with assms show ?thesis by (auto simp: parseLine_def Let_def split: if_splits)
next
  case False
  show ?thesis
  proof (cases "trim row = [] \<or> startsWith (trim row) ''#'' \<or> startsWith (trim row) ''//''")
    case True
    with False assms show ?thesis by (auto simp: parseLine_def Let_def)
  next
    case c: False
    show ?thesis
    proof (cases "rxHeredoc (trim row) \<noteq> None")
      case True
      with False c assms show ?thesis
        by (auto simp: parseLine_def Let_def split: prod.splits)
    next
      case h: False
      let ?s1 = "if buf st = []
                 then st\<lparr>bufStartLine := n,
                         bufStartOriginalLine := getOriginalLine (lineMap pe) n\<rparr>
                 else st"
      let ?s2 = "?s1\<lparr>buf := buf ?s1 @ (if buf ?s1 \<noteq> [] then [CHR 0x0A] else []) @ row\<rparr>"
      have r2: "p_rules ?s2 = p_rules st" by simp
      from False c h assms
      have "(if endsWith (trim row) '';'' then flush pe ?s2 else Inr ?s2) = Inr st'"
        by (simp add: parseLine_def Let_def)
      then show ?thesis
      proof (cases "endsWith (trim row) '';''")
        case True
        assume "(if endsWith (trim row) '';'' then flush pe ?s2 else Inr ?s2) = Inr st'"
        with True have "flush pe ?s2 = Inr st'" by simp
        from flush_rules[OF this] r2 show ?thesis by simp
      next
        case e: False
        assume "(if endsWith (trim row) '';'' then flush pe ?s2 else Inr ?s2) = Inr st'"
        with e have "st' = ?s2" by simp
        with r2 show ?thesis by simp
      qed
    qed
  qed
qed

lemma parseLines_rules:
  "parseLines pe st n rows = Inr st' \<Longrightarrow> \<exists>extra. p_rules st' = p_rules st @ extra"
proof (induction rows arbitrary: st n)
  case Nil
  then show ?case by simp
next
  case (Cons r rows)
  from Cons.prems obtain s1 where a: "parseLine pe st n r = Inr s1"
    and b: "parseLines pe s1 (Suc n) rows = Inr st'"
    by (auto split: sum.splits)
  from parseLine_rules[OF a] Cons.IH[OF b] show ?case by auto
qed


lemma heredoc_block:
  assumes "\<not> inHeredoc st" and "heredocStarts start key oper delim"
    and "\<forall>l\<in>set content. trim l \<noteq> delim" and "trim closing = delim"
    and "content = [] \<or> hd content \<noteq> []"
  shows "parseLines pe st n (start # content @ [closing]) =
           Inr (st\<lparr>p_rules := p_rules st @
                     [heredocResult (pFilePath pe) (getOriginalLine (lineMap pe) n) key oper content],
                   inHeredoc := False, heredocKey := trim key, heredocOp := oper,
                   heredocDelimiter := delim,
                   heredocStartLine := getOriginalLine (lineMap pe) n,
                   heredocContent := []\<rparr>)"
proof -
  let ?s1 = "st\<lparr>inHeredoc := True, heredocKey := trim key, heredocOp := oper,
                   heredocDelimiter := delim,
                   heredocStartLine := getOriginalLine (lineMap pe) n,
                   heredocContent := []\<rparr>"
  let ?s2 = "?s1\<lparr>heredocContent := foldl heredocAppend (heredocContent ?s1) content\<rparr>"
  have a: "parseLine pe st n start = Inr ?s1" by (rule parseLine_start[OF assms(1,2)])
  have b: "parseLines pe ?s1 (Suc n) content = Inr ?s2"
    using assms(3) by (intro parseLines_content) auto
  have k: "parseKeyPath (heredocKey ?s2) \<noteq> []" using assms(2) by (simp add: heredocStarts_def)
  have c: "parseLine pe ?s2 (Suc n + length content) closing =
      Inr (?s2\<lparr>p_rules := p_rules ?s2 @ [heredocRule pe ?s2 (parseKeyPath (heredocKey ?s2))],
                inHeredoc := False, heredocContent := []\<rparr>)"
    using assms(4) k by (intro parseLine_end) auto
  have j: "foldl heredocAppend [] content = joinWith [CHR 0x0A] content"
    by (rule heredoc_content_joined[OF assms(5)])
  have r: "heredocRule pe ?s2 (parseKeyPath (heredocKey ?s2)) =
      heredocResult (pFilePath pe) (getOriginalLine (lineMap pe) n) key oper content"
    using j by (simp add: heredocRule_def heredocResult_def)
  have "parseLines pe st n (start # content @ [closing]) =
      (case parseLines pe ?s1 (Suc n) content of
         Inl e \<Rightarrow> Inl e
       | Inr st' \<Rightarrow> parseLines pe st' (Suc n + length content) [closing])"
    using a by (simp add: parseLines_append)
  with b c r show ?thesis by simp
qed

lemma heredoc_open:
  assumes "\<not> inHeredoc st" and "heredocStarts start key oper delim"
    and "\<forall>l\<in>set rest. trim l \<noteq> delim"
  shows "\<exists>st'. parseLines pe st n (start # rest) = Inr st' \<and> inHeredoc st' \<and>
           heredocDelimiter st' = delim \<and>
           heredocStartLine st' = getOriginalLine (lineMap pe) n"
proof -
  let ?s1 = "st\<lparr>inHeredoc := True, heredocKey := trim key, heredocOp := oper,
                   heredocDelimiter := delim,
                   heredocStartLine := getOriginalLine (lineMap pe) n,
                   heredocContent := []\<rparr>"
  have a: "parseLine pe st n start = Inr ?s1" by (rule parseLine_start[OF assms(1,2)])
  have b: "parseLines pe ?s1 (Suc n) rest =
      Inr (?s1\<lparr>heredocContent := foldl heredocAppend (heredocContent ?s1) rest\<rparr>)"
    using assms(3) by (intro parseLines_content) auto
  from a b show ?thesis by simp
qed

lemma heredoc_core:
  assumes "parseLines (penvOf j fp pod text) initialState 1 pre = Inr st"
    and "\<not> inHeredoc st"
    and "heredocStarts start key oper delim"
  shows "(\<forall>content closing post.
            cleanedLines text = pre @ start # content @ closing # post \<and>
            (\<forall>l\<in>set content. trim l \<noteq> delim) \<and> trim closing = delim \<and>
            (content = [] \<or> hd content \<noteq> [])
            \<longrightarrow>
              (\<exists>st'. parseLines (penvOf j fp pod text) initialState 1
                        (pre @ start # content @ [closing]) = Inr st' \<and>
                     \<not> inHeredoc st' \<and>
                     p_rules st' =
                       p_rules st @ [heredocResult fp (Suc (length pre)) key oper content]) \<and>
              (\<forall>res. parseColony j fp pod text = Inr res \<longrightarrow>
                 (\<exists>after. p_rules res =
                    p_rules st @ heredocResult fp (Suc (length pre)) key oper content # after))) \<and>
         (\<forall>rest.
            cleanedLines text = pre @ start # rest \<and> (\<forall>l\<in>set rest. trim l \<noteq> delim)
            \<longrightarrow> parseColony j fp pod text =
                  Inl (ParseError (UnterminatedHeredoc delim) (Suc (length pre))))"
proof (rule conjI)
  let ?pe = "penvOf j fp pod text"
  show "\<forall>content closing post.
            cleanedLines text = pre @ start # content @ closing # post \<and>
            (\<forall>l\<in>set content. trim l \<noteq> delim) \<and> trim closing = delim \<and>
            (content = [] \<or> hd content \<noteq> [])
            \<longrightarrow>
              (\<exists>st'. parseLines (penvOf j fp pod text) initialState 1
                        (pre @ start # content @ [closing]) = Inr st' \<and>
                     \<not> inHeredoc st' \<and>
                     p_rules st' =
                       p_rules st @ [heredocResult fp (Suc (length pre)) key oper content]) \<and>
              (\<forall>res. parseColony j fp pod text = Inr res \<longrightarrow>
                 (\<exists>after. p_rules res =
                    p_rules st @ heredocResult fp (Suc (length pre)) key oper content # after))"
  proof (intro allI impI)
    fix content closing post
    assume h: "cleanedLines text = pre @ start # content @ closing # post \<and>
            (\<forall>l\<in>set content. trim l \<noteq> delim) \<and> trim closing = delim \<and>
            (content = [] \<or> hd content \<noteq> [])"
    let ?R = "heredocResult fp (Suc (length pre)) key oper content"
    let ?s3 = "st\<lparr>p_rules := p_rules st @ [?R],
                   inHeredoc := False, heredocKey := trim key, heredocOp := oper,
                   heredocDelimiter := delim,
                   heredocStartLine := Suc (length pre),
                   heredocContent := []\<rparr>"
    have blk: "parseLines ?pe st (1 + length pre) (start # content @ [closing]) = Inr ?s3"
      using heredoc_block[OF assms(2,3), of content closing ?pe "1 + length pre"] h
      by (simp add: lineMap_penvOf) (simp add: penvOf_def)
    have upto: "parseLines ?pe initialState 1 (pre @ start # content @ [closing]) = Inr ?s3"
      using assms(1) blk by (simp add: parseLines_append)
    then have A: "\<exists>st'. parseLines ?pe initialState 1 (pre @ start # content @ [closing]) = Inr st' \<and>
                     \<not> inHeredoc st' \<and> p_rules st' = p_rules st @ [?R]"
      by simp
    have B: "\<forall>res. parseColony j fp pod text = Inr res \<longrightarrow>
                 (\<exists>after. p_rules res = p_rules st @ ?R # after)"
    proof (intro allI impI)
      fix res assume pc: "parseColony j fp pod text = Inr res"
      from h have cl: "cleanedLines text = (pre @ start # content @ [closing]) @ post" by simp
      from pc obtain fin where fin: "parseLines ?pe initialState 1 (cleanedLines text) = Inr fin"
        and res: "res = parsed.truncate fin"
        by (auto simp: parseColony_penvOf split: sum.splits if_splits)
      have ap: "parseLines ?pe initialState 1 ((pre @ start # content @ [closing]) @ post) =
          parseLines ?pe ?s3 (1 + length (pre @ start # content @ [closing])) post"
        by (subst parseLines_append) (simp only: upto sum.case)
      from fin have "parseLines ?pe initialState 1 ((pre @ start # content @ [closing]) @ post)
          = Inr fin"
        unfolding cl .
      with ap have "parseLines ?pe ?s3 (1 + length (pre @ start # content @ [closing])) post
          = Inr fin"
        by (simp only:)
      from parseLines_rules[OF this] obtain extra where "p_rules fin = p_rules ?s3 @ extra" by blast
      then have "p_rules res = p_rules st @ ?R # extra" using res by (simp add: parsed.defs)
      then show "\<exists>after. p_rules res = p_rules st @ ?R # after" by blast
    qed
    from A B show "(\<exists>st'. parseLines (penvOf j fp pod text) initialState 1
                        (pre @ start # content @ [closing]) = Inr st' \<and>
                     \<not> inHeredoc st' \<and>
                     p_rules st' =
                       p_rules st @ [heredocResult fp (Suc (length pre)) key oper content]) \<and>
              (\<forall>res. parseColony j fp pod text = Inr res \<longrightarrow>
                 (\<exists>after. p_rules res =
                    p_rules st @ heredocResult fp (Suc (length pre)) key oper content # after))"
      by blast
  qed
next
  let ?pe = "penvOf j fp pod text"
  show "\<forall>rest.
            cleanedLines text = pre @ start # rest \<and> (\<forall>l\<in>set rest. trim l \<noteq> delim)
            \<longrightarrow> parseColony j fp pod text =
                  Inl (ParseError (UnterminatedHeredoc delim) (Suc (length pre)))"
  proof (intro allI impI)
    fix rest
    assume h: "cleanedLines text = pre @ start # rest \<and> (\<forall>l\<in>set rest. trim l \<noteq> delim)"
    from heredoc_open[OF assms(2,3), of rest ?pe "1 + length pre"] h
    obtain st' where a: "parseLines ?pe st (1 + length pre) (start # rest) = Inr st'"
      and b: "inHeredoc st'" "heredocDelimiter st' = delim"
             "heredocStartLine st' = Suc (length pre)"
      by (auto simp: lineMap_penvOf)
    from assms(1) a h have "parseLines ?pe initialState 1 (cleanedLines text) = Inr st'"
      by (simp add: parseLines_append)
    with b show "parseColony j fp pod text =
                  Inl (ParseError (UnterminatedHeredoc delim) (Suc (length pre)))"
      by (simp add: parseColony_penvOf)
  qed
qed


lemma splitLines_nonempty: "splitLines t \<noteq> []"
  by (induction t rule: splitLines.induct) (auto split: list.splits)

lemma splitLines_no_newline: "l \<in> set (splitLines t) \<Longrightarrow> CHR 0x0A \<notin> set l"
proof (induction t arbitrary: l rule: splitLines.induct)
  case 1
  then show ?case by simp
next
  case (2 c cs)
  then show ?case by (auto split: if_splits list.splits)
qed

lemma stripChars_member: "x \<in> set (fst (stripChars inC d l)) \<Longrightarrow> x \<in> set l"
proof (induction inC d l rule: stripChars.induct)
  case (1 inComment depth)
  then show ?case by simp
next
  case (2 inComment depth c cs)
  then show ?case
    by (auto split: prod.splits if_splits dest: list.set_sel(2)[rotated])
qed

lemma stripChars_subset: "set (fst (stripChars inC d l)) \<subseteq> set l"
  using stripChars_member by blast

lemma stripLines_length: "length (stripLines inC d ls) = length ls"
  by (induction ls arbitrary: inC d) (auto split: prod.splits)

lemma stripLines_no_newline:
  "\<forall>l\<in>set ls. CHR 0x0A \<notin> set l \<Longrightarrow> \<forall>l\<in>set (stripLines inC d ls). CHR 0x0A \<notin> set l"
proof (induction ls arbitrary: inC d)
  case Nil
  then show ?case by simp
next
  case (Cons a ls)
  obtain clean inC' d' where s: "stripChars inC d a = (clean, inC', d')" by (cases "stripChars inC d a")
  have "set clean \<subseteq> set a" using stripChars_subset[of inC d a] s by simp
  with Cons s show ?case by auto
qed

lemma splitLines_line_then:
  "CHR 0x0A \<notin> set x \<Longrightarrow> length (splitLines (x @ CHR 0x0A # rest)) = Suc (length (splitLines rest))"
proof (induction x)
  case Nil
  then show ?case by simp
next
  case (Cons c cs)
  then have IH: "length (splitLines (cs @ CHR 0x0A # rest)) = Suc (length (splitLines rest))"
    and c: "c \<noteq> CHR 0x0A" and n: "CHR 0x0A \<notin> set cs" by auto
  show ?case
  proof (cases "c = CHR 0x0D \<and> take 1 (cs @ CHR 0x0A # rest) = [CHR 0x0A]")
    case True
    with n have "cs = []" by (cases cs) auto
    with True show ?thesis by simp
  next
    case False
    with c IH show ?thesis
      by (cases "splitLines (cs @ CHR 0x0A # rest)") (auto simp: splitLines_nonempty)
  qed
qed

lemma splitLines_single: "CHR 0x0A \<notin> set x \<Longrightarrow> length (splitLines x) = 1"
proof (induction x)
  case Nil
  then show ?case by simp
next
  case (Cons c cs)
  then have IH: "length (splitLines cs) = 1" and c: "c \<noteq> CHR 0x0A"
    and n: "CHR 0x0A \<notin> set cs" by auto
  have "take 1 cs \<noteq> [CHR 0x0A]" using n by (cases cs) auto
  with c IH show ?case by (cases "splitLines cs") auto
qed

lemma splitLines_joinWith:
  "ls \<noteq> [] \<Longrightarrow> \<forall>l\<in>set ls. CHR 0x0A \<notin> set l \<Longrightarrow>
   length (splitLines (joinWith [CHR 0x0A] ls)) = length ls"
proof (induction "[CHR 0x0A]" ls rule: joinWith.induct)
  case 1
  then show ?case by simp
next
  case (2 x)
  then show ?case by (simp add: splitLines_single)
next
  case (3 x y ys)
  then show ?case by (simp add: splitLines_line_then)
qed

lemma cleanedLines_length: "length (cleanedLines text) = length (splitLines text)"
proof -
  let ?ls = "stripLines False 0 (splitLines text)"
  have "?ls \<noteq> []" using splitLines_nonempty[of "text"] stripLines_length[of False 0 "splitLines text"]
    by (metis length_0_conv)
  moreover have "\<forall>l\<in>set ?ls. CHR 0x0A \<notin> set l"
    by (rule stripLines_no_newline) (auto dest: splitLines_no_newline)
  ultimately have "length (splitLines (joinWith [CHR 0x0A] ?ls)) = length ?ls"
    by (rule splitLines_joinWith)
  then show ?thesis
    by (simp add: cleanedLines_def stripBlockComments_def Let_def stripLines_length)
qed


text \<open>
  C9, as stated, fails: block comments are stripped from the whole text before the lines
  are read, the content of a heredoc included, so the value is not the content verbatim.
  The content line \<open>a/*x*/b\<close> arrives in the value as \<open>ab\<close>.
\<close>

theorem heredoc_block_comment_stripped:
  "parseColony noJSON5 ''<memory>'' False heredocCommentText =
     Inr \<lparr>p_dims = None, p_includes = [], p_requires = [], p_envDefaults = [],
          p_rules = [\<lparr>filePath = ''<memory>'', line = 1, col = Some 0, keyRaw = ''*.k'',
                      keySegments = [''*'', ''k''], op = OpSet, rvalue = JStr ''ab''\<rparr>]\<rparr>"
  by (simp add: heredocCommentText_def heredocRule_def isDelimiter_def isUpper_def
      isIdentRest_def parser_defs)

text \<open>
  The heredoc ends at the first line that is the delimiter once trimmed, and a content
  line is joined with a newline only when the content gathered before it is not empty,
  so that empty lines at the head of the content are lost.
\<close>

lemma heredoc_indented_delimiter_ends:
  "parseColony noJSON5 ''<memory>'' False heredocIndentText =
     Inr \<lparr>p_dims = None, p_includes = [], p_requires = [], p_envDefaults = [],
          p_rules = [\<lparr>filePath = ''<memory>'', line = 1, col = Some 0, keyRaw = ''*.k'',
                      keySegments = [''*'', ''k''], op = OpSet, rvalue = JStr ''a''\<rparr>,
                     \<lparr>filePath = ''<memory>'', line = 4, col = Some 0, keyRaw = ''*.n'',
                      keySegments = [''*'', ''n''], op = OpSet, rvalue = JNum 1\<rparr>]\<rparr>"
  by (simp add: heredocIndentText_def heredocRule_def isDelimiter_def isUpper_def
      isIdentRest_def parser_defs)

lemma heredoc_leading_blank_line_dropped:
  "parseColony noJSON5 ''<memory>'' False heredocBlankText =
     Inr \<lparr>p_dims = None, p_includes = [], p_requires = [], p_envDefaults = [],
          p_rules = [\<lparr>filePath = ''<memory>'', line = 1, col = Some 0, keyRaw = ''*.k'',
                      keySegments = [''*'', ''k''], op = OpSet, rvalue = JStr ''x''\<rparr>]\<rparr>"
  by (simp add: heredocBlankText_def heredocRule_def isDelimiter_def isUpper_def
      isIdentRest_def parser_defs)

text \<open>
  C9, amended. The lines are those of the text after block comments are stripped; there
  are as many of them as the text has lines. When the lines before it parse without
  error and leave no heredoc open, a line that is not a comment and has the form
  \<open>key op <<DELIM\<close> with a key of at least one segment opens a heredoc. If it is followed
  by content lines of which none is \<open>DELIM\<close> once trimmed, the first of them not
  empty, and by a line that is \<open>DELIM\<close> once trimmed, the parser adds a rule for that key
  and operator, at the line number of the opening line, whose value is the string of
  these (stripped) content lines joined by newlines, without literal decoding; the rule
  is in the result whenever the parse of the whole text succeeds. If no later line is
  \<open>DELIM\<close> once trimmed, the parse fails with the unterminated-heredoc error that
  carries the line number of the opening line.
\<close>

theorem heredoc_rule_from_stripped_lines:
  assumes "parseLines (penvOf j fp pod text) initialState 1 pre = Inr st"
    and "\<not> inHeredoc st"
    and "heredocStarts start key oper delim"
  shows "(\<forall>content closing post.
            cleanedLines text = pre @ start # content @ closing # post \<and>
            (\<forall>l\<in>set content. trim l \<noteq> delim) \<and> trim closing = delim \<and>
            (content = [] \<or> hd content \<noteq> [])
            \<longrightarrow>
              (\<exists>st'. parseLines (penvOf j fp pod text) initialState 1
                        (pre @ start # content @ [closing]) = Inr st' \<and>
                     \<not> inHeredoc st' \<and>
                     p_rules st' =
                       p_rules st @ [heredocResult fp (Suc (length pre)) key oper content]) \<and>
              (\<forall>res. parseColony j fp pod text = Inr res \<longrightarrow>
                 (\<exists>after. p_rules res =
                    p_rules st @ heredocResult fp (Suc (length pre)) key oper content # after))) \<and>
         (\<forall>rest.
            cleanedLines text = pre @ start # rest \<and> (\<forall>l\<in>set rest. trim l \<noteq> delim)
            \<longrightarrow> parseColony j fp pod text =
                  Inl (ParseError (UnterminatedHeredoc delim) (Suc (length pre)))) \<and>
         length (cleanedLines text) = length (splitLines text)"
  using heredoc_core[OF assms] cleanedLines_length[of "text"] by blast

lemma heredocStarts_template: "heredocStarts ''*.template = <<EOF'' ''*.template'' OpSet ''EOF''"
  by (simp add: heredocStarts_def isDelimiter_def isUpper_def isIdentRest_def parser_defs)

lemma heredocStarts_key: "heredocStarts ''*.key = <<EOF'' ''*.key'' OpSet ''EOF''"
  by (simp add: heredocStarts_def isDelimiter_def isUpper_def isIdentRest_def parser_defs)

lemma cleaned_heredocText:
  "cleanedLines heredocText = [] @ ''*.template = <<EOF'' # [''line 1'', ''line 2''] @ ''EOF'' # []"
  by (simp add: heredocText_def cleanedLines_def stripBlockComments_def)

lemma cleaned_heredocOpenText: "cleanedLines heredocOpenText = [] @ ''*.key = <<EOF'' # [''no end'']"
  by (simp add: heredocOpenText_def cleanedLines_def stripBlockComments_def)

theorem heredoc_rule_from_stripped_lines_witness:
  "heredocStarts ''*.template = <<EOF'' ''*.template'' OpSet ''EOF'' \<and>
   parseColony noJSON5 ''<memory>'' False heredocText =
     Inr \<lparr>p_dims = None, p_includes = [], p_requires = [], p_envDefaults = [],
          p_rules = [heredocResult ''<memory>'' 1 ''*.template'' OpSet [''line 1'', ''line 2'']]\<rparr> \<and>
   rvalue (heredocResult ''<memory>'' 1 ''*.template'' OpSet [''line 1'', ''line 2''])
     = JStr ''line 1\<newline>line 2'' \<and>
   parseColony noJSON5 ''<memory>'' False heredocOpenText =
     Inl (ParseError (UnterminatedHeredoc ''EOF'') 1)"
proof -
  have p0: "\<And>t. parseLines (penvOf noJSON5 ''<memory>'' False t) initialState 1 [] = Inr initialState"
    by simp
  have i: "\<not> inHeredoc initialState" by (simp add: initialState_def)
  have c: "(\<forall>l\<in>set [''line 1'', ''line 2'']. trim l \<noteq> ''EOF'') \<and> trim ''EOF'' = ''EOF'' \<and>
      ([''line 1'', ''line 2''] = [] \<or> hd [''line 1'', ''line 2''] \<noteq> [])"
    by (simp add: trim_def isSpace_def)
  have e: "parseColony noJSON5 ''<memory>'' False heredocText =
     Inr \<lparr>p_dims = None, p_includes = [], p_requires = [], p_envDefaults = [],
          p_rules = [heredocResult ''<memory>'' 1 ''*.template'' OpSet [''line 1'', ''line 2'']]\<rparr>"
    by (simp add: heredocText_def heredocResult_def heredocRule_def isDelimiter_def isUpper_def
        isIdentRest_def parser_defs)
  from heredoc_rule_from_stripped_lines[OF p0 i heredocStarts_template, of heredocText]
    cleaned_heredocText c e
  have "\<exists>after. p_rules \<lparr>p_dims = None, p_includes = [], p_requires = [], p_envDefaults = [],
          p_rules = [heredocResult ''<memory>'' 1 ''*.template'' OpSet [''line 1'', ''line 2'']]\<rparr> =
        p_rules initialState @
          heredocResult ''<memory>'' (Suc (length ([]::string list))) ''*.template'' OpSet
            [''line 1'', ''line 2''] # after"
    by blast
  have v: "rvalue (heredocResult ''<memory>'' 1 ''*.template'' OpSet [''line 1'', ''line 2''])
     = JStr ''line 1\<newline>line 2''"
    by (simp add: heredocResult_def)
  have o: "\<forall>l\<in>set [''no end'']. trim l \<noteq> ''EOF''" by (simp add: trim_def isSpace_def)
  from heredoc_rule_from_stripped_lines[OF p0 i heredocStarts_key, of heredocOpenText]
    cleaned_heredocOpenText o
  have u: "parseColony noJSON5 ''<memory>'' False heredocOpenText =
     Inl (ParseError (UnterminatedHeredoc ''EOF'') (Suc (length ([]::string list))))"
    by blast
  from heredocStarts_template e v u show ?thesis by simp
qed

subsection \<open>Remove and object identity\<close>

lemma structuredClone_mono:
  "n \<le> snd (structuredCloneR n v)"
  "n \<le> snd (structuredCloneItems n xs)"
  "n \<le> snd (structuredCloneEntries n kvs)"
proof (induction n v and n xs and n kvs
    rule: structuredCloneR_structuredCloneItems_structuredCloneEntries.induct)
  case (1 n i xs)
  then show ?case by (auto split: prod.splits)
next
  case (2 n i kvs)
  then show ?case by (auto split: prod.splits)
next
  case (5 n x xs)
  then show ?case by (fastforce split: prod.splits)
next
  case (7 n k v kvs)
  then show ?case by (fastforce split: prod.splits)
qed simp_all

lemma clone_mono:
  "n \<le> snd (cloneR n v)"
  "n \<le> snd (cloneItems n xs)"
proof (induction n v and n xs rule: cloneR_cloneItems.induct)
  case (1 n i xs)
  then show ?case by (auto split: prod.splits)
next
  case (2 n i kvs)
  then show ?case using structuredClone_mono(1)[of n "RObj i kvs"] by simp
next
  case (5 n x xs)
  then show ?case by (fastforce split: prod.splits)
qed simp_all

lemma clone_address:
  "address (fst (cloneR n v)) = Some i \<Longrightarrow> i = n"
  by (cases v) (auto split: prod.splits)

lemma cloneItems_address:
  "y \<in> set (fst (cloneItems n xs)) \<Longrightarrow> address y = Some i \<Longrightarrow> n \<le> i"
proof (induction xs arbitrary: n)
  case Nil
  then show ?case by simp
next
  case (Cons x xs)
  obtain y1 n1 where a: "cloneR n x = (y1, n1)" by (cases "cloneR n x")
  obtain ys n2 where b: "cloneItems n1 xs = (ys, n2)" by (cases "cloneItems n1 xs")
  from a have le: "n \<le> n1" using clone_mono(1)[of n x] by simp
  from Cons.prems a b have "y = y1 \<or> y \<in> set ys" by simp
  then show ?case
  proof
    assume "y = y1"
    with a Cons.prems(2) clone_address[of n x i] show ?thesis by simp
  next
    assume "y \<in> set ys"
    with b Cons.IH[of n1] Cons.prems(2) have "n1 \<le> i" by simp
    with le show ?thesis by simp
  qed
qed

lemma erase_structuredClone:
  "erase (fst (structuredCloneR n v)) = erase v"
  "map erase (fst (structuredCloneItems n xs)) = map erase xs"
  "map (\<lambda>kv. (fst kv, erase (snd kv))) (fst (structuredCloneEntries n kvs))
     = map (\<lambda>kv. (fst kv, erase (snd kv))) kvs"
  by (induction n v and n xs and n kvs
      rule: structuredCloneR_structuredCloneItems_structuredCloneEntries.induct)
     (auto split: prod.splits)

lemma erase_clone:
  "erase (fst (cloneR n v)) = erase v"
  "map erase (fst (cloneItems n xs)) = map erase xs"
proof (induction n v and n xs rule: cloneR_cloneItems.induct)
  case (2 n i kvs)
  show ?case using erase_structuredClone(1)[of n "RObj i kvs"] by simp
qed (auto split: prod.splits)


lemma erase_removeItemsR: "map erase (removeItemsR v) = itemsOf (erase v)"
  by (cases v) (simp_all add: removeItemsR_def itemsOf_def)

lemma removeItems_erase:
  "map erase (removeItemsR (fst (cloneR n rv))) = itemsOf (erase rv)"
  by (simp add: erase_removeItemsR erase_clone(1))

lemma removeItems_address:
  assumes "y \<in> set (removeItemsR (fst (cloneR n rv)))" and "address y = Some i"
  shows "n \<le> i"
proof (cases rv)
  case (RArr j xs)
  obtain ys n' where c: "cloneItems (Suc n) xs = (ys, n')" by (cases "cloneItems (Suc n) xs")
  with RArr assms(1) have "y \<in> set (fst (cloneItems (Suc n) xs))"
    by (simp add: removeItemsR_def)
  from cloneItems_address[OF this assms(2)] show ?thesis by simp
next
  case (RObj j kvs)
  have "address (fst (cloneR n rv)) = Some n"
    using RObj by (simp split: prod.splits)
  moreover have "y = fst (cloneR n rv)"
    using RObj assms(1) by (simp add: removeItemsR_def split: prod.splits)
  ultimately show ?thesis using assms(2) by simp
qed (use assms in \<open>simp_all add: removeItemsR_def\<close>)

lemma erase_scalar_inj:
  "isScalarR x \<Longrightarrow> (erase y = erase x) = (y = x)"
  by (cases x; cases y) (simp_all add: isScalarR_def)

lemma isScalar_erase: "isScalar (erase x) = isScalarR x"
  by (cases x) (simp_all add: isScalarR_def)

lemma sameValueZero_scalar:
  "isScalarR x \<Longrightarrow> sameValueZero y x = (y = x)"
  by (cases "address y") (auto simp: sameValueZero_def isScalarR_def)

lemma sameValueZero_fresh:
  assumes "address x = Some i" and "i < n" and "\<And>j. address y = Some j \<Longrightarrow> n \<le> j"
  shows "\<not> sameValueZero y x"
  using assms by (cases "address y") (auto simp: sameValueZero_def)

lemma has_after_clone:
  assumes "allocatedBefore n existing" and "x \<in> set existing"
  shows "list_ex (\<lambda>y. sameValueZero y x) (removeItemsR (fst (cloneR n rv)))
           = (isScalarR x \<and> erase x \<in> set (itemsOf (erase rv)))"
proof (cases "isScalarR x")
  case True
  have "list_ex (\<lambda>y. sameValueZero y x) (removeItemsR (fst (cloneR n rv)))
          = (x \<in> set (removeItemsR (fst (cloneR n rv))))"
    using True by (simp add: list_ex_iff sameValueZero_scalar)
  also have "\<dots> = (erase x \<in> erase ` set (removeItemsR (fst (cloneR n rv))))"
  proof
    assume "x \<in> set (removeItemsR (fst (cloneR n rv)))"
    then show "erase x \<in> erase ` set (removeItemsR (fst (cloneR n rv)))" by simp
  next
    assume "erase x \<in> erase ` set (removeItemsR (fst (cloneR n rv)))"
    then obtain y where y: "y \<in> set (removeItemsR (fst (cloneR n rv)))" "erase y = erase x"
      by force
    with True have "y = x" by (simp add: erase_scalar_inj)
    with y show "x \<in> set (removeItemsR (fst (cloneR n rv)))" by simp
  qed
  also have "\<dots> = (erase x \<in> set (itemsOf (erase rv)))"
    using removeItems_erase[of n rv] by (metis set_map)
  finally show ?thesis using True by simp
next
  case False
  then obtain i where a: "address x = Some i" by (auto simp: isScalarR_def)
  with assms have lt: "i < n" by (simp add: allocatedBefore_def)
  have "\<not> sameValueZero y x" if "y \<in> set (removeItemsR (fst (cloneR n rv)))" for y
    using sameValueZero_fresh[OF a lt] removeItems_address[OF that] by blast
  then show ?thesis using False by (auto simp: list_ex_iff)
qed

lemma removeR_filter:
  assumes "allocatedBefore n existing"
  shows "removeR n rv existing
           = filter (\<lambda>x. \<not> (isScalarR x \<and> erase x \<in> set (itemsOf (erase rv)))) existing"
  unfolding removeR_def Let_def
  by (rule filter_cong) (simp_all add: has_after_clone[OF assms])

lemma erase_removeR:
  assumes "allocatedBefore n existing"
  shows "map erase (removeR n rv existing)
           = filter (\<lambda>x. \<not> removeHas (itemsOf (clone (erase rv))) x) (map erase existing)"
  by (simp add: removeR_filter[OF assms] filter_map comp_def removeHas_def clone_id
      isScalar_erase)

lemma mapping_items_not_scalar:
  "isPlainObject v \<Longrightarrow> x \<in> set (itemsOf v) \<Longrightarrow> \<not> isScalar x"
  by (cases v) (simp_all add: itemsOf_def)

text \<open>
  C10. Let every element of the existing sequence be allocated before the Remove rule's
  value is cloned. An element is deleted only when it is SameValueZero-equal to one of
  the removal items of the clone; every mapping and every sequence among the elements is
  kept, whatever the operand; every scalar element equal to a removal item is deleted;
  when the operand is a mapping, or a sequence without scalar items, the existing
  sequence is left unchanged; and what \<open>applyPostOp\<close> stores at the key path is this
  result.
\<close>

theorem remove_by_same_value_zero:
  assumes "allocatedBefore n existing"
  shows "(\<forall>x\<in>set existing. x \<notin> set (removeR n rv existing) \<longrightarrow>
            (\<exists>y\<in>set (removeItemsR (fst (cloneR n rv))). sameValueZero y x)) \<and>
         (\<forall>x\<in>set existing. \<not> isScalarR x \<longrightarrow> x \<in> set (removeR n rv existing)) \<and>
         (\<forall>x\<in>set existing. isScalarR x \<and> erase x \<in> set (itemsOf (erase rv)) \<longrightarrow>
            x \<notin> set (removeR n rv existing)) \<and>
         (isPlainObject (erase rv) \<or> (\<forall>y\<in>set (itemsOf (erase rv)). \<not> isScalar y) \<longrightarrow>
            removeR n rv existing = existing) \<and>
         (\<forall>r out tr. op r = OpRemove \<and> keyPath r \<noteq> [] \<and> rvalue r = erase rv \<and>
            getDeep (JObj out) (keyPath r) = Some (JArr (map erase existing)) \<longrightarrow>
            getDeep (JObj (fst (applyPostOp (out, tr) r))) (keyPath r)
              = Some (JArr (map erase (removeR n rv existing))))"
proof (intro conjI)
  show "\<forall>x\<in>set existing. x \<notin> set (removeR n rv existing) \<longrightarrow>
          (\<exists>y\<in>set (removeItemsR (fst (cloneR n rv))). sameValueZero y x)"
    by (auto simp: removeR_def Let_def list_ex_iff)
  show "\<forall>x\<in>set existing. \<not> isScalarR x \<longrightarrow> x \<in> set (removeR n rv existing)"
    by (simp add: removeR_filter[OF assms])
  show "\<forall>x\<in>set existing. isScalarR x \<and> erase x \<in> set (itemsOf (erase rv)) \<longrightarrow>
          x \<notin> set (removeR n rv existing)"
    by (simp add: removeR_filter[OF assms])
  show "isPlainObject (erase rv) \<or> (\<forall>y\<in>set (itemsOf (erase rv)). \<not> isScalar y) \<longrightarrow>
          removeR n rv existing = existing"
  proof
    assume "isPlainObject (erase rv) \<or> (\<forall>y\<in>set (itemsOf (erase rv)). \<not> isScalar y)"
    then have "\<forall>y\<in>set (itemsOf (erase rv)). \<not> isScalar y"
      using mapping_items_not_scalar by blast
    then have "\<forall>x\<in>set existing. \<not> (isScalarR x \<and> erase x \<in> set (itemsOf (erase rv)))"
      using isScalar_erase by blast
    then show "removeR n rv existing = existing"
      by (simp add: removeR_filter[OF assms])
  qed
  show "\<forall>r out tr. op r = OpRemove \<and> keyPath r \<noteq> [] \<and> rvalue r = erase rv \<and>
          getDeep (JObj out) (keyPath r) = Some (JArr (map erase existing)) \<longrightarrow>
          getDeep (JObj (fst (applyPostOp (out, tr) r))) (keyPath r)
            = Some (JArr (map erase (removeR n rv existing)))"
  proof (intro allI impI)
    fix r :: irule and out tr
    assume h: "op r = OpRemove \<and> keyPath r \<noteq> [] \<and> rvalue r = erase rv \<and>
          getDeep (JObj out) (keyPath r) = Some (JArr (map erase existing))"
    from h applyPostOp_remove[of r out tr]
    have "getDeep (JObj (fst (applyPostOp (out, tr) r))) (keyPath r) =
            Some (JArr (filter (\<lambda>x. \<not> removeHas (itemsOf (rvalue r)) x) (map erase existing)))"
      by simp
    with h show "getDeep (JObj (fst (applyPostOp (out, tr) r))) (keyPath r)
            = Some (JArr (map erase (removeR n rv existing)))"
      by (simp add: erase_removeR[OF assms] clone_id)
  qed
qed


lemma removeRule_fields:
  "op (removeRule rv) = OpRemove" "keyPath (removeRule rv) = [''list'']"
  "rvalue (removeRule rv) = erase rv"
  by (simp_all add: removeRule_def indexRule_def makeRule_def rule.extend_def
      rule.defs irule.defs)

lemma removeExisting_allocated: "allocatedBefore 4 removeExisting"
  by (simp add: allocatedBefore_def removeExisting_def)

lemma removeOut_list:
  "getDeep (JObj removeOut) [''list''] = Some (JArr (map erase removeExisting))"
  by (simp add: removeOut_def)

theorem remove_by_same_value_zero_witness:
  "allocatedBefore 4 removeExisting \<and>
   removeR 4 removeOperand removeExisting = [RObj 2 [(''a'', RNum 1)], RArr 3 [RStr ''y'']] \<and>
   RObj 2 [(''a'', RNum 1)] \<in> set (removeR 4 removeOperand removeExisting) \<and>
   RStr ''x'' \<notin> set (removeR 4 removeOperand removeExisting) \<and>
   removeR 4 removeMapping removeExisting = removeExisting \<and>
   getDeep (JObj (fst (applyPostOp (removeOut, []) (removeRule removeOperand)))) [''list'']
     = Some (JArr [JObj [(''a'', JNum 1)], JArr [JStr ''y'']])"
proof -
  note a = removeExisting_allocated
  note t = remove_by_same_value_zero[OF a, of removeOperand]
  note m = remove_by_same_value_zero[OF a, of removeMapping]
  have v: "removeR 4 removeOperand removeExisting = [RObj 2 [(''a'', RNum 1)], RArr 3 [RStr ''y'']]"
    by (simp add: removeR_def removeOperand_def removeExisting_def removeItemsR_def
        sameValueZero_def)
  have k: "RObj 2 [(''a'', RNum 1)] \<in> set (removeR 4 removeOperand removeExisting)"
    using t by (simp add: removeExisting_def isScalarR_def)
  have x: "RStr ''x'' \<notin> set (removeR 4 removeOperand removeExisting)"
    using t by (simp add: removeExisting_def removeOperand_def isScalarR_def itemsOf_def)
  have u: "removeR 4 removeMapping removeExisting = removeExisting"
    using m by (simp add: removeMapping_def)
  have "getDeep (JObj (fst (applyPostOp (removeOut, []) (removeRule removeOperand))))
          (keyPath (removeRule removeOperand))
        = Some (JArr (map erase (removeR 4 removeOperand removeExisting)))"
    using t removeRule_fields[of removeOperand] removeOut_list by (metis list.distinct(1))
  then have g: "getDeep (JObj (fst (applyPostOp (removeOut, []) (removeRule removeOperand))))
       [''list''] = Some (JArr [JObj [(''a'', JNum 1)], JArr [JStr ''y'']])"
    by (simp add: removeRule_fields v)
  from a v k x u g show ?thesis by blast
qed

end
